theory Spec2Isabelle
  imports Complex_Main "HOL-Library.Word"
begin

unbundle bit_operations_syntax

section \<open>JavaScript strings and regular expressions\<close>

text \<open>
  A JavaScript string is a sequence of UTF-16 code units. The model reads a text as the
  list of its code units and covers the code units below 256 (ASCII and Latin-1), one
  \<open>char\<close> each: \<open>charCode\<close> is \<^verbatim>\<open>charCodeAt\<close>, \<open>isSpace\<close> is the class
  \<^verbatim>\<open>\s\<close> (which is also what \<^verbatim>\<open>trim\<close> strips), \<open>toLowerChar\<close> and
  \<open>toUpperChar\<close> are the case mappings on that range.
\<close>

definition charCode :: "char \<Rightarrow> nat" where
  "charCode c = of_char c"

definition isSpace :: "char \<Rightarrow> bool" where
  "isSpace c = (charCode c \<in> {9, 10, 11, 12, 13, 32, 160})"

definition toLowerChar :: "char \<Rightarrow> char" where
  "toLowerChar c =
     (let n = charCode c
      in if (65 \<le> n \<and> n \<le> 90) \<or> (192 \<le> n \<and> n \<le> 222 \<and> n \<noteq> 215)
         then char_of (n + 32) else c)"

definition toUpperChar :: "char \<Rightarrow> char" where
  "toUpperChar c =
     (let n = charCode c
      in if (97 \<le> n \<and> n \<le> 122) \<or> (224 \<le> n \<and> n \<le> 254 \<and> n \<noteq> 247)
         then char_of (n - 32) else c)"

definition toLowerCase :: "string \<Rightarrow> string" where
  "toLowerCase s = map toLowerChar s"

definition trim :: "string \<Rightarrow> string" where
  "trim s = rev (dropWhile isSpace (rev (dropWhile isSpace s)))"

definition substring :: "string \<Rightarrow> nat \<Rightarrow> nat \<Rightarrow> string" where
  "substring s a b = take (b - a) (drop a s)"

fun startsWith :: "string \<Rightarrow> string \<Rightarrow> bool" where
  "startsWith s [] = True"
| "startsWith [] (c # w) = False"
| "startsWith (d # s) (c # w) = (d = c \<and> startsWith s w)"

fun str_includes :: "string \<Rightarrow> string \<Rightarrow> bool" where
  "str_includes [] w = (w = [])"
| "str_includes (c # s) w = (startsWith (c # s) w \<or> str_includes s w)"

text \<open>
  \<^verbatim>\<open>String.prototype.includes\<close> and \<^verbatim>\<open>startsWith\<close> are \<open>str_includes\<close> and
  \<open>startsWith\<close>.

  Regular expressions. Every repetition in the patterns of this repository is over a
  single character class, so the syntax tree has classes (\<open>In\<close>, and \<open>NotIn\<close> for a
  negated class), sequence, alternation, a class repeated between \<open>lo\<close> and \<open>hi\<close>
  times (greedy or lazy), capture groups, \<^verbatim>\<open>\b\<close> and the empty pattern.
  \<open>rxm\<close> is the backtracking matcher of ECMAScript: from a state (the character before
  the position, the rest of the input, the captures so far) it returns every way the
  pattern can match there, in the order backtracking tries them, so the head of the list
  is the match JavaScript reports. With the \<^verbatim>\<open>i\<close> flag a character is in a class when
  one of its case variants is.
\<close>

datatype atom = In "char \<Rightarrow> bool" | NotIn "char \<Rightarrow> bool"

datatype rx =
    Atom atom
  | Seq rx rx
  | Alt rx rx
  | Rep atom nat "nat option" bool
  | Grp nat rx
  | WordB
  | Eps

type_synonym captures = "(nat \<times> string) list"
type_synonym mstate = "char option \<times> string \<times> captures"

definition inClass :: "bool \<Rightarrow> (char \<Rightarrow> bool) \<Rightarrow> char \<Rightarrow> bool" where
  "inClass icase P c = (if icase then P c \<or> P (toUpperChar c) \<or> P (toLowerChar c) else P c)"

fun atomMatches :: "bool \<Rightarrow> atom \<Rightarrow> char \<Rightarrow> bool" where
  "atomMatches icase (In P) c = inClass icase P c"
| "atomMatches icase (NotIn P) c = (\<not> inClass icase P c)"

definition isWordChar :: "char \<Rightarrow> bool" where
  "isWordChar c =
     (let n = charCode c
      in (48 \<le> n \<and> n \<le> 57) \<or> (65 \<le> n \<and> n \<le> 90) \<or> n = 95 \<or> (97 \<le> n \<and> n \<le> 122))"

definition atWordBoundary :: "char option \<Rightarrow> string \<Rightarrow> bool" where
  "atWordBoundary p s =
     ((case p of None \<Rightarrow> False | Some c \<Rightarrow> isWordChar c) \<noteq>
      (case s of [] \<Rightarrow> False | c # _ \<Rightarrow> isWordChar c))"

definition lastOr :: "char option \<Rightarrow> string \<Rightarrow> char option" where
  "lastOr p s = (if s = [] then p else Some (last s))"

primrec rxm :: "bool \<Rightarrow> rx \<Rightarrow> mstate \<Rightarrow> mstate list" where
  "rxm icase (Atom a) st =
     (case st of (p, s, cs) \<Rightarrow>
        (case s of [] \<Rightarrow> [] | c # r \<Rightarrow> if atomMatches icase a c then [(Some c, r, cs)] else []))"
| "rxm icase (Seq a b) st = concat (map (rxm icase b) (rxm icase a st))"
| "rxm icase (Alt a b) st = rxm icase a st @ rxm icase b st"
| "rxm icase (Rep a lo hi greedy) st =
     (case st of (p, s, cs) \<Rightarrow>
        (let n = length (takeWhile (atomMatches icase a) s);
             n' = (case hi of None \<Rightarrow> n | Some h \<Rightarrow> min n h);
             counts = (if greedy then rev [lo..<Suc n'] else [lo..<Suc n'])
         in map (\<lambda>k. (lastOr p (take k s), drop k s, cs)) counts))"
| "rxm icase (Grp k r) st =
     (case st of (p, s, cs) \<Rightarrow>
        map (\<lambda>(p', s', cs'). (p', s', (k, take (length s - length s') s) # cs'))
          (rxm icase r st))"
| "rxm icase WordB st =
     (case st of (p, s, cs) \<Rightarrow> if atWordBoundary p s then [st] else [])"
| "rxm icase Eps st = [st]"

definition lit :: "string \<Rightarrow> rx" where
  "lit w = foldr (\<lambda>c r. Seq (Atom (In (\<lambda>x. x = c))) r) w Eps"

definition rxs :: "rx list \<Rightarrow> rx" where
  "rxs rs = foldr Seq rs Eps"

fun alts :: "rx list \<Rightarrow> rx" where
  "alts [] = Eps"
| "alts [r] = r"
| "alts (r # rs) = Alt r (alts rs)"

text \<open>
  \<open>rx_search\<close> is \<^verbatim>\<open>RegExp.prototype.exec\<close> without the \<^verbatim>\<open>g\<close> flag: the first
  position where the pattern matches, as (start, length, captures). \<open>js_match\<close> is
  \<^verbatim>\<open>String.prototype.match\<close> with such a pattern: the matched text and the captures.
  A group that took no part in the match reads as the empty string in \<open>capture\<close>.
\<close>

fun rx_search :: "bool \<Rightarrow> rx \<Rightarrow> char option \<Rightarrow> string \<Rightarrow> (nat \<times> nat \<times> captures) option" where
  "rx_search icase r p [] =
     (case rxm icase r (p, [], []) of [] \<Rightarrow> None | (p', s', cs) # _ \<Rightarrow> Some (0, 0, cs))"
| "rx_search icase r p (c # s) =
     (case rxm icase r (p, c # s, []) of
        (p', s', cs) # _ \<Rightarrow> Some (0, length (c # s) - length s', cs)
      | [] \<Rightarrow> map_option (\<lambda>(st, len, cs). (Suc st, len, cs)) (rx_search icase r (Some c) s))"

definition capture :: "captures \<Rightarrow> nat \<Rightarrow> string" where
  "capture cs k = (case map_of cs k of None \<Rightarrow> [] | Some w \<Rightarrow> w)"

definition js_match :: "bool \<Rightarrow> rx \<Rightarrow> string \<Rightarrow> (string \<times> captures) option" where
  "js_match icase r s =
     map_option (\<lambda>(st, len, cs). (take len (drop st s), cs)) (rx_search icase r None s)"

text \<open>
  With the \<^verbatim>\<open>g\<close> flag the input is scanned from left to right, each search starting
  where the last match ended (one further after an empty match). \<open>rx_scan\<close> returns the
  input cut into the characters no match covers (\<open>Inl\<close>) and the matches (\<open>Inr\<close>);
  \<open>js_match_all\<close> is \<^verbatim>\<open>match\<close> with a global pattern (the matched texts; the empty
  list stands for JavaScript's \<^verbatim>\<open>null\<close>) and \<open>js_replace_all\<close> is \<^verbatim>\<open>replace\<close>
  with a global pattern and a replacement text without \<^verbatim>\<open>$\<close> references.
\<close>

fun rx_scan :: "bool \<Rightarrow> rx \<Rightarrow> char option \<Rightarrow> string \<Rightarrow> nat \<Rightarrow> (string + string) list" where
  "rx_scan icase r p [] skip =
     (if skip = 0 \<and> rxm icase r (p, [], []) \<noteq> [] then [Inr []] else [])"
| "rx_scan icase r p (c # s) skip =
     (if skip > 0 then rx_scan icase r (Some c) s (skip - 1)
      else (case rxm icase r (p, c # s, []) of
              [] \<Rightarrow> Inl [c] # rx_scan icase r (Some c) s 0
            | (p', s', cs) # _ \<Rightarrow>
                (let len = length (c # s) - length s'
                 in if len = 0 then Inr [] # Inl [c] # rx_scan icase r (Some c) s 0
                    else Inr (take len (c # s)) # rx_scan icase r (Some c) s (len - 1))))"

definition js_match_all :: "bool \<Rightarrow> rx \<Rightarrow> string \<Rightarrow> string list" where
  "js_match_all icase r s = concat (map (\<lambda>x. case x of Inl _ \<Rightarrow> [] | Inr w \<Rightarrow> [w]) (rx_scan icase r None s 0))"

definition js_replace_all :: "bool \<Rightarrow> rx \<Rightarrow> string \<Rightarrow> string \<Rightarrow> string" where
  "js_replace_all icase r w s = concat (map (\<lambda>x. case x of Inl u \<Rightarrow> u | Inr _ \<Rightarrow> w) (rx_scan icase r None s 0))"


text \<open>
  \<^verbatim>\<open>String.prototype.split\<close> with a pattern: the pieces between the matches, each
  followed by the captures of the match that ends it. A match that is empty at the start
  of the current piece is skipped, and an empty input gives no piece when the pattern
  matches it and one empty piece otherwise.
\<close>

primrec ngroups :: "rx \<Rightarrow> nat" where
  "ngroups (Atom a) = 0"
| "ngroups (Seq a b) = ngroups a + ngroups b"
| "ngroups (Alt a b) = ngroups a + ngroups b"
| "ngroups (Rep a lo hi g) = 0"
| "ngroups (Grp k r) = Suc (ngroups r)"
| "ngroups WordB = 0"
| "ngroups Eps = 0"

fun split_go :: "bool \<Rightarrow> rx \<Rightarrow> char option \<Rightarrow> string \<Rightarrow> string \<Rightarrow> nat \<Rightarrow> string list" where
  "split_go icase r p [] acc skip = [rev acc]"
| "split_go icase r p (c # s) acc skip =
     (if skip > 0 then split_go icase r (Some c) s acc (skip - 1)
      else (case rxm icase r (p, c # s, []) of
              [] \<Rightarrow> split_go icase r (Some c) s (c # acc) 0
            | (p', s', cs) # _ \<Rightarrow>
                (let len = length (c # s) - length s'
                 in if len = 0 \<and> acc = [] then split_go icase r (Some c) s (c # acc) 0
                    else rev acc # map (capture cs) [1..<Suc (ngroups r)] @
                         (if len = 0 then split_go icase r (Some c) s [c] 0
                          else split_go icase r (Some c) s [] (len - 1)))))"

definition js_split :: "bool \<Rightarrow> rx \<Rightarrow> string \<Rightarrow> string list" where
  "js_split icase r s =
     (if s = [] then (if rxm icase r (None, [], []) \<noteq> [] then [] else [[]])
      else split_go icase r None s [] 0)"

text \<open>The pattern \<^verbatim>\<open>/\s+/\<close>.\<close>

definition rx_ws_plus :: rx where
  "rx_ws_plus = Rep (In isSpace) 1 None True"

section \<open>Storage: the in-memory store of \<^verbatim>\<open>server/storage.ts\<close>\<close>

text \<open>
  \<^verbatim>\<open>MemStorage\<close> holds three JavaScript \<^verbatim>\<open>Map\<close>s. A JavaScript Map iterates in
  insertion order and holds a key once, so a Map is modelled as an association list in
  insertion order; \<open>map_set\<close> keeps the place of a key that is already there, as
  \<^verbatim>\<open>Map.prototype.set\<close> does, and \<open>map_delete\<close> removes the key.
\<close>

type_synonym ('k, 'v) jsmap = "('k \<times> 'v) list"

definition map_get :: "('k, 'v) jsmap \<Rightarrow> 'k \<Rightarrow> 'v option" where
  "map_get m k = map_of m k"

fun map_set :: "'k \<Rightarrow> 'v \<Rightarrow> ('k, 'v) jsmap \<Rightarrow> ('k, 'v) jsmap" where
  "map_set k v [] = [(k, v)]"
| "map_set k v ((k', v') # m) = (if k' = k then (k, v) # m else (k', v') # map_set k v m)"

definition map_delete :: "'k \<Rightarrow> ('k, 'v) jsmap \<Rightarrow> ('k, 'v) jsmap" where
  "map_delete k m = filter (\<lambda>e. fst e \<noteq> k) m"

definition map_values :: "('k, 'v) jsmap \<Rightarrow> 'v list" where
  "map_values m = map snd m"

text \<open>
  The rows of \<^verbatim>\<open>shared/schema.ts\<close>. The stored embedding is the JSON text of a
  number array; the model keeps what \<^verbatim>\<open>JSON.parse\<close> makes of it: \<open>BadJson\<close> when
  parsing throws, the numbers otherwise. A column that is \<^verbatim>\<open>null\<close> is \<open>None\<close>.
\<close>

datatype stored_embedding = BadJson | Vec "real list"

record document =
  doc_id :: string
  doc_filename :: string
  originalName :: string
  chunksCount :: int
  uploadedAt :: nat

record documentChunk =
  chunk_id :: string
  documentId :: string
  chunkIndex :: int
  chunk_text :: string
  embedding :: "stored_embedding option"

record query_row =
  query_id :: string
  query_text :: string
  response :: string
  sources_json :: "string option"
  createdAt :: nat

record storage =
  documents :: "(string, document) jsmap"
  documentChunks :: "(string, documentChunk) jsmap"
  queries :: "(string, query_row) jsmap"

definition getDocument :: "storage \<Rightarrow> string \<Rightarrow> document option" where
  "getDocument s i = map_get (documents s) i"

definition getAllChunks :: "storage \<Rightarrow> documentChunk list" where
  "getAllChunks s = map_values (documentChunks s)"

text \<open>
  \<^verbatim>\<open>deleteDocumentChunks\<close> walks a snapshot of the entries
  (\<^verbatim>\<open>Array.from(this.documentChunks.entries())\<close>) and deletes, by key, every entry
  whose chunk belongs to the document.
\<close>

definition deleteDocumentChunks :: "storage \<Rightarrow> string \<Rightarrow> storage" where
  "deleteDocumentChunks s d =
     s\<lparr>documentChunks :=
         fold (\<lambda>e m. if documentId (snd e) = d then map_delete (fst e) m else m)
           (documentChunks s) (documentChunks s)\<rparr>"

definition deleteDocument :: "storage \<Rightarrow> string \<Rightarrow> storage" where
  "deleteDocument s i = deleteDocumentChunks (s\<lparr>documents := map_delete i (documents s)\<rparr>) i"

text \<open>A store with two documents, three chunks and one query record.\<close>

definition deleteDocument_example :: storage where
  "deleteDocument_example =
     \<lparr>documents =
        [(''d1'', \<lparr>doc_id = ''d1'', doc_filename = ''f1'', originalName = ''a.pdf'',
                   chunksCount = 2, uploadedAt = 1\<rparr>),
         (''d2'', \<lparr>doc_id = ''d2'', doc_filename = ''f2'', originalName = ''b.pdf'',
                   chunksCount = 1, uploadedAt = 2\<rparr>)],
      documentChunks =
        [(''c1'', \<lparr>chunk_id = ''c1'', documentId = ''d1'', chunkIndex = 0,
                   chunk_text = ''alpha'', embedding = None\<rparr>),
         (''c2'', \<lparr>chunk_id = ''c2'', documentId = ''d2'', chunkIndex = 0,
                   chunk_text = ''beta'', embedding = None\<rparr>),
         (''c3'', \<lparr>chunk_id = ''c3'', documentId = ''d1'', chunkIndex = 1,
                   chunk_text = ''gamma'', embedding = None\<rparr>)],
      queries =
        [(''q1'', \<lparr>query_id = ''q1'', query_text = ''what'', response = ''that'',
                   sources_json = None, createdAt = 3\<rparr>)]\<rparr>"

subsection \<open>Deleting a document\<close>

lemma map_get_delete: "map_get (map_delete k m) k' = (if k' = k then None else map_get m k')"
  by (induction m) (auto simp: map_get_def map_delete_def)

lemma map_delete_absent: "map_get m k = None \<Longrightarrow> map_delete k m = m"
  by (induction m) (auto simp: map_get_def map_delete_def split: if_splits)

lemma fold_delete_filter:
  "fold (\<lambda>e m. if P (snd e) then map_delete (fst e) m else m) es m =
     filter (\<lambda>x. \<not> list_ex (\<lambda>e. P (snd e) \<and> fst e = fst x) es) m"
  by (induction es arbitrary: m) (auto simp: map_delete_def intro: filter_cong)

lemma distinct_keys_filter:
  assumes "distinct (map fst m)"
  shows "filter (\<lambda>x. \<not> list_ex (\<lambda>e. P (snd e) \<and> fst e = fst x) m) m =
         filter (\<lambda>e. \<not> P (snd e)) m"
proof (rule filter_cong [OF refl])
  fix x assume x: "x \<in> set m"
  have "e = x" if "e \<in> set m" "fst e = fst x" for e
    using assms that x by (metis distinct_map inj_onD)
  then show "(\<not> list_ex (\<lambda>e. P (snd e) \<and> fst e = fst x) m) = (\<not> P (snd x))"
    using x by (auto simp: list_ex_iff)
qed

text \<open>
  C10. In every store (a Map holds each key once), \<open>deleteDocument s i\<close> takes the
  document stored under \<open>i\<close> out of the documents and leaves every other document as it
  was; the chunks that remain are exactly the chunks of other documents, unchanged and
  in their order; the query records are untouched; and when no document is stored under
  \<open>i\<close> the documents are the same as before. The operation has no failing branch: it
  is a total function of the store.
\<close>

theorem deleteDocument_frame:
  assumes "distinct (map fst (documentChunks s))"
  shows "(\<forall>k. getDocument (deleteDocument s i) k = (if k = i then None else getDocument s k))
       \<and> documentChunks (deleteDocument s i) =
           filter (\<lambda>e. documentId (snd e) \<noteq> i) (documentChunks s)
       \<and> queries (deleteDocument s i) = queries s
       \<and> (getDocument s i = None \<longrightarrow> documents (deleteDocument s i) = documents s)"
proof -
  have "documentChunks (deleteDocument s i) =
          fold (\<lambda>e m. if documentId (snd e) = i then map_delete (fst e) m else m)
            (documentChunks s) (documentChunks s)"
    by (simp add: deleteDocument_def deleteDocumentChunks_def)
  then have chunks: "documentChunks (deleteDocument s i) =
      filter (\<lambda>e. documentId (snd e) \<noteq> i) (documentChunks s)"
    using fold_delete_filter [of "\<lambda>c. documentId c = i" "documentChunks s" "documentChunks s"]
      distinct_keys_filter [OF assms, of "\<lambda>c. documentId c = i"]
    by simp
  have docs: "documents (deleteDocument s i) = map_delete i (documents s)"
    by (simp add: deleteDocument_def deleteDocumentChunks_def)
  have "\<forall>k. getDocument (deleteDocument s i) k = (if k = i then None else getDocument s k)"
    by (simp add: getDocument_def docs map_get_delete)
  moreover have "queries (deleteDocument s i) = queries s"
    by (simp add: deleteDocument_def deleteDocumentChunks_def)
  moreover have "getDocument s i = None \<longrightarrow> documents (deleteDocument s i) = documents s"
    by (simp add: getDocument_def docs map_delete_absent)
  ultimately show ?thesis using chunks by simp
qed

theorem deleteDocument_frame_witness:
  "distinct (map fst (documentChunks deleteDocument_example))
   \<and> getDocument (deleteDocument deleteDocument_example ''d1'') ''d1'' = None
   \<and> getDocument (deleteDocument deleteDocument_example ''d1'') ''d2''
       = getDocument deleteDocument_example ''d2''
   \<and> map fst (documentChunks (deleteDocument deleteDocument_example ''d1'')) = [''c2'']
   \<and> queries (deleteDocument deleteDocument_example ''d1'') = queries deleteDocument_example
   \<and> documents (deleteDocument deleteDocument_example ''d0'') = documents deleteDocument_example"
proof -
  have d: "distinct (map fst (documentChunks deleteDocument_example))"
    by (simp add: deleteDocument_example_def)
  have n: "getDocument deleteDocument_example ''d0'' = None"
    by (simp add: deleteDocument_example_def getDocument_def map_get_def)
  from deleteDocument_frame [OF d, of "''d1''"] deleteDocument_frame [OF d, of "''d0''"] d n
  show ?thesis
    by (simp add: deleteDocument_example_def)
qed

section \<open>The embedding service\<close>


text \<open>
  \<^verbatim>\<open>server/services/embeddingService.ts\<close>. JavaScript numbers are read as real
  numbers: sums, products, square roots and quotients are exact. What a division by zero
  gives is kept (\<open>js_divide\<close>), since HOL's own \<open>x / 0\<close> is \<open>0\<close>.
\<close>

datatype jsnum = Num real | PosInfinity | NegInfinity | NaN

definition js_divide :: "real \<Rightarrow> real \<Rightarrow> jsnum" where
  "js_divide x y =
     (if y \<noteq> 0 then Num (x / y)
      else if x = 0 then NaN else if 0 < x then PosInfinity else NegInfinity)"

text \<open>\<open>DimensionMismatch\<close> is \<^verbatim>\<open>Error('Vectors must have the same length')\<close>.\<close>

datatype embed_error = DimensionMismatch

text \<open>
  The fallback path of \<^verbatim>\<open>generateEmbedding\<close> (no provider is configured). The word
  hash \<^verbatim>\<open>((hash << 5) - hash + code) & 0xffffffff\<close> is a signed 32-bit value, a
  \<open>32 word\<close> read by \<open>sint\<close>. The set of hashes is a \<^verbatim>\<open>Set\<close> of the decimal texts of
  \<^verbatim>\<open>Math.abs(hash)\<close>, which \<^verbatim>\<open>parseInt\<close> reads back unchanged: the model keeps
  the numbers, in insertion order and each once (\<open>set_add\<close>).
\<close>

definition hashStep :: "32 word \<Rightarrow> char \<Rightarrow> 32 word" where
  "hashStep hash c = push_bit 5 hash - hash + of_nat (charCode c)"

definition hashWord :: "string \<Rightarrow> 32 word" where
  "hashWord w = foldl hashStep 0 w"

definition absHash :: "32 word \<Rightarrow> nat" where
  "absHash hash = nat \<bar>sint hash\<bar>"

definition set_add :: "'a \<Rightarrow> 'a list \<Rightarrow> 'a list" where
  "set_add x xs = (if x \<in> set xs then xs else xs @ [x])"

definition addTo :: "real list \<Rightarrow> nat \<Rightarrow> real \<Rightarrow> real list" where
  "addTo vector idx x = vector[idx := vector ! idx + x]"

definition dimension :: nat where
  "dimension = 256"

definition wordFeatures :: "nat list \<Rightarrow> real list \<Rightarrow> real list" where
  "wordFeatures wordHashes vector =
     foldl (\<lambda>v wordHash. addTo v (wordHash mod dimension) 1) vector wordHashes"

definition charFeatures :: "string \<Rightarrow> real list \<Rightarrow> real list" where
  "charFeatures limited vector =
     foldl (\<lambda>v i. let code = charCode (limited ! i); idx = (code + i) mod dimension
                  in addTo v idx (real (code mod 31 + 1) / 32))
       vector [0..<length limited]"

definition sumSquares :: "real list \<Rightarrow> real" where
  "sumSquares v = foldl (\<lambda>s x. s + x * x) 0 v"

definition generateEmbedding :: "string \<Rightarrow> real list" where
  "generateEmbedding input =
     (let vector = replicate dimension 0;
          limited = take 5000 (toLowerCase input);
          wordz = filter (\<lambda>w. length w > 2) (js_split False rx_ws_plus limited);
          wordHashes = foldl (\<lambda>hs w. set_add (absHash (hashWord w)) hs) [] wordz;
          vector1 = wordFeatures wordHashes vector;
          vector2 = charFeatures limited vector1;
          norm0 = sqrt (sumSquares vector2);
          norm1 = (if norm0 = 0 then 1 else norm0)
      in map (\<lambda>v. v / norm1) vector2)"

text \<open>The Euclidean norm and the dot product, as the specification words them.\<close>

definition euclideanNorm :: "real list \<Rightarrow> real" where
  "euclideanNorm v = sqrt (\<Sum>x\<leftarrow>v. x * x)"

definition dotProductOf :: "real list \<Rightarrow> real list \<Rightarrow> real" where
  "dotProductOf a b = (\<Sum>(x, y)\<leftarrow>zip a b. x * y)"

text \<open>\<^verbatim>\<open>cosineSimilarity\<close>: the length check, then one loop with three accumulators.\<close>

definition cosineSimilarity :: "real list \<Rightarrow> real list \<Rightarrow> embed_error + jsnum" where
  "cosineSimilarity a b =
     (if length a \<noteq> length b then Inl DimensionMismatch
      else (case foldl (\<lambda>(dotProduct, normA, normB) i.
                          (dotProduct + a ! i * b ! i, normA + a ! i * a ! i, normB + b ! i * b ! i))
                   (0, 0, 0) [0..<length a] of
              (dotProduct, normA, normB) \<Rightarrow> Inr (js_divide dotProduct (sqrt normA * sqrt normB))))"

subsection \<open>Cosine similarity\<close>

lemma sumSquares_eq: "foldl (\<lambda>s x. s + x * x) z v = z + (\<Sum>x\<leftarrow>v. x * x)"
  by (induction v arbitrary: z) (simp_all add: algebra_simps)

lemma cosine_loop:
  "n \<le> length a \<Longrightarrow> n \<le> length b \<Longrightarrow>
   foldl (\<lambda>(dotProduct, normA, normB) i.
            (dotProduct + a ! i * b ! i, normA + a ! i * a ! i, normB + b ! i * b ! i))
     (0, 0, 0) [0..<n] =
   (dotProductOf (take n a) (take n b), (\<Sum>x\<leftarrow>take n a. x * x), (\<Sum>x\<leftarrow>take n b. x * x))"
proof (induction n)
  case 0
  show ?case by (simp add: dotProductOf_def)
next
  case (Suc n)
  then have "n < length a" "n < length b" by simp_all
  then show ?case
    using Suc.IH by (simp add: take_Suc_conv_app_nth dotProductOf_def)
qed

lemma cosineSimilarity_closed:
  "cosineSimilarity a b =
     (if length a \<noteq> length b then Inl DimensionMismatch
      else Inr (js_divide (dotProductOf a b) (euclideanNorm a * euclideanNorm b)))"
proof (cases "length a = length b")
  case True
  with cosine_loop [of "length a" a b] show ?thesis
    by (simp add: cosineSimilarity_def euclideanNorm_def)
next
  case False
  then show ?thesis by (simp add: cosineSimilarity_def)
qed

text \<open>
  C9. \<open>cosineSimilarity a b\<close> fails with the dimension error exactly when the lengths of
  \<open>a\<close> and \<open>b\<close> differ, and otherwise returns the dot product of \<open>a\<close> and \<open>b\<close> divided
  by the product of their Euclidean norms (the division is JavaScript's: \<^verbatim>\<open>NaN\<close> for
  \<open>0 / 0\<close>, which is what an all-zero vector gives).
\<close>

theorem cosineSimilarity_spec:
  "(cosineSimilarity a b = Inl DimensionMismatch) = (length a \<noteq> length b)
   \<and> cosineSimilarity a b =
       (if length a \<noteq> length b then Inl DimensionMismatch
        else Inr (js_divide (dotProductOf a b) (euclideanNorm a * euclideanNorm b)))"
  by (simp add: cosineSimilarity_closed)

text \<open>The similarity of a vector of norm 1 with itself is 1.\<close>

lemma cosineSimilarity_self:
  assumes "euclideanNorm v = 1"
  shows "cosineSimilarity v v = Inr (Num 1)"
proof -
  have "dotProductOf v v = (\<Sum>x\<leftarrow>v. x * x)"
    by (simp add: dotProductOf_def zip_same_conv_map comp_def)
  moreover have "(\<Sum>x\<leftarrow>v. x * x) = 1"
    using assms by (simp add: euclideanNorm_def)
  ultimately show ?thesis
    using assms by (simp add: cosineSimilarity_closed js_divide_def)
qed

text \<open>
  The similarity is never infinite: a zero in the denominator means that one of the two
  vectors is all zero, and then the dot product is zero too, so the quotient is
  \<^verbatim>\<open>NaN\<close>.
\<close>

lemma zero_squares: "(\<Sum>x\<leftarrow>v. x * x) = (0::real) \<Longrightarrow> \<forall>x\<in>set v. x = 0"
proof (induction v)
  case Nil
  show ?case by simp
next
  case (Cons y v)
  have nn: "0 \<le> (\<Sum>x\<leftarrow>v. x * x)" by (rule sum_list_nonneg) auto
  have sq: "0 \<le> y * y" by simp
  from Cons.prems have "y * y + (\<Sum>x\<leftarrow>v. x * x) = 0" by simp
  with nn sq have "y * y = 0" "(\<Sum>x\<leftarrow>v. x * x) = 0" by linarith+
  with Cons.IH show ?case by simp
qed

lemma dot_zero_left: "\<forall>x\<in>set a. x = (0::real) \<Longrightarrow> dotProductOf a b = 0"
proof (induction a arbitrary: b)
  case Nil
  show ?case by (simp add: dotProductOf_def)
next
  case (Cons x a)
  then show ?case by (cases b) (simp_all add: dotProductOf_def)
qed

lemma dot_zero_right: "\<forall>x\<in>set b. x = (0::real) \<Longrightarrow> dotProductOf a b = 0"
proof (induction a arbitrary: b)
  case Nil
  show ?case by (simp add: dotProductOf_def)
next
  case (Cons x a)
  then show ?case by (cases b) (simp_all add: dotProductOf_def)
qed

lemma cosineSimilarity_finite:
  "cosineSimilarity a b \<noteq> Inr PosInfinity \<and> cosineSimilarity a b \<noteq> Inr NegInfinity"
proof (cases "euclideanNorm a * euclideanNorm b = 0")
  case True
  then have "(\<Sum>x\<leftarrow>a. x * x) = 0 \<or> (\<Sum>x\<leftarrow>b. x * x) = 0"
    by (simp add: euclideanNorm_def)
  then have "dotProductOf a b = 0"
    using zero_squares dot_zero_left dot_zero_right by blast
  with True show ?thesis by (simp add: cosineSimilarity_closed js_divide_def)
next
  case False
  then show ?thesis by (simp add: cosineSimilarity_closed js_divide_def)
qed

subsection \<open>The fallback embedding\<close>

lemma addTo_props:
  assumes "idx < length v" "0 \<le> x" "\<forall>y\<in>set v. 0 \<le> y"
  shows "length (addTo v idx x) = length v"
    and "\<forall>y\<in>set (addTo v idx x). 0 \<le> y"
    and "sum_list (addTo v idx x) = sum_list v + x"
proof -
  show "length (addTo v idx x) = length v" by (simp add: addTo_def)
  show "\<forall>y\<in>set (addTo v idx x). 0 \<le> y"
  proof
    fix y assume "y \<in> set (addTo v idx x)"
    then have "y \<in> insert (v ! idx + x) (set v)"
      unfolding addTo_def using set_update_subset_insert by fastforce
    moreover have "0 \<le> v ! idx" using assms(1,3) by simp
    ultimately show "0 \<le> y" using assms(2,3) by auto
  qed
  show "sum_list (addTo v idx x) = sum_list v + x"
  proof -
    have "v = take idx v @ v ! idx # drop (Suc idx) v"
      using assms(1) by (simp add: id_take_nth_drop)
    moreover have "addTo v idx x = take idx v @ (v ! idx + x) # drop (Suc idx) v"
      using assms(1) by (simp add: addTo_def upd_conv_take_nth_drop)
    ultimately have "sum_list (addTo v idx x) = sum_list (take idx v) + (v ! idx + x) + sum_list (drop (Suc idx) v)"
      and "sum_list v = sum_list (take idx v) + v ! idx + sum_list (drop (Suc idx) v)"
      by (simp, metis add.assoc sum_list.Cons sum_list_append)
    then show ?thesis by simp
  qed
qed

lemma features_loop:
  assumes "\<forall>i\<in>set is. f i < length v \<and> 0 \<le> g i" "\<forall>y\<in>set v. 0 \<le> y"
  shows "length (foldl (\<lambda>v i. addTo v (f i) (g i)) v is) = length v
       \<and> (\<forall>y\<in>set (foldl (\<lambda>v i. addTo v (f i) (g i)) v is). 0 \<le> y)
       \<and> sum_list (foldl (\<lambda>v i. addTo v (f i) (g i)) v is) = sum_list v + (\<Sum>i\<leftarrow>is. g i)"
  using assms
proof (induction "is" arbitrary: v)
  case Nil
  then show ?case by simp
next
  case (Cons i "is")
  have i: "f i < length v" "0 \<le> g i" using Cons.prems(1) by simp_all
  note a = addTo_props [OF i Cons.prems(2)]
  have "\<forall>j\<in>set is. f j < length (addTo v (f i) (g i)) \<and> 0 \<le> g j"
    using Cons.prems(1) a(1) by simp
  from Cons.IH [OF this a(2)] show ?case
    by (simp add: a(1) a(3) add.assoc)
qed

lemma sum_squares_pos:
  "\<forall>y\<in>set v. (0::real) \<le> y \<Longrightarrow> 0 < sum_list v \<Longrightarrow> 0 < (\<Sum>x\<leftarrow>v. x * x)"
proof (induction v)
  case Nil
  then show ?case by simp
next
  case (Cons a v)
  have nn: "0 \<le> (\<Sum>x\<leftarrow>v. x * x)" by (rule sum_list_nonneg) auto
  show ?case
  proof (cases "0 < a")
    case True
    then have "0 < a * a" by simp
    with nn show ?thesis by simp
  next
    case False
    with Cons.prems have "a = 0" by simp
    with Cons show ?thesis by simp
  qed
qed

lemma sum_squares_scaled:
  "(\<Sum>x\<leftarrow>map (\<lambda>v. v / n) v. x * x) = (\<Sum>x\<leftarrow>v. x * x) / (n * n)" for n :: real
  by (induction v) (simp_all add: add_divide_distrib)

lemma vector2_props:
  defines "limited t \<equiv> take 5000 (toLowerCase t)"
  defines "hashes t \<equiv> foldl (\<lambda>hs w. set_add (absHash (hashWord w)) hs) []
                         (filter (\<lambda>w. length w > 2) (js_split False rx_ws_plus (limited t)))"
  defines "vector2 t \<equiv> charFeatures (limited t) (wordFeatures (hashes t) (replicate dimension 0))"
  shows "length (vector2 t) = 256"
    and "\<forall>y\<in>set (vector2 t). 0 \<le> y"
    and "t \<noteq> [] \<Longrightarrow> 0 < sum_list (vector2 t)"
proof -
  let ?v0 = "replicate dimension (0::real)"
  let ?v1 = "wordFeatures (hashes t) ?v0"
  have w: "length ?v1 = dimension \<and> (\<forall>y\<in>set ?v1. 0 \<le> y)
           \<and> sum_list ?v1 = sum_list ?v0 + (\<Sum>i\<leftarrow>hashes t. 1)"
    unfolding wordFeatures_def
    using features_loop [of "hashes t" "\<lambda>h. h mod dimension" ?v0 "\<lambda>_. 1"]
    by (simp add: dimension_def)
  have c: "length (vector2 t) = length ?v1 \<and> (\<forall>y\<in>set (vector2 t). 0 \<le> y)
           \<and> sum_list (vector2 t) = sum_list ?v1 +
               (\<Sum>i\<leftarrow>[0..<length (limited t)]. real (charCode (limited t ! i) mod 31 + 1) / 32)"
    unfolding vector2_def charFeatures_def Let_def
    using features_loop [of "[0..<length (limited t)]"
        "\<lambda>i. (charCode (limited t ! i) + i) mod dimension" ?v1
        "\<lambda>i. real (charCode (limited t ! i) mod 31 + 1) / 32"] w
    by (simp add: dimension_def)
  show "length (vector2 t) = 256" using c w by (simp add: dimension_def)
  show "\<forall>y\<in>set (vector2 t). 0 \<le> y" using c by simp
  show "0 < sum_list (vector2 t)" if "t \<noteq> []"
  proof -
    from that have "limited t \<noteq> []" by (cases t) (simp_all add: limited_def toLowerCase_def)
    then obtain n where n: "length (limited t) = Suc n" by (cases "limited t") simp_all
    have "0 \<le> (\<Sum>i\<leftarrow>[0..<n]. real (charCode (limited t ! i) mod 31 + 1) / 32)"
      by (rule sum_list_nonneg) auto
    then have "0 < (\<Sum>i\<leftarrow>[0..<length (limited t)]. real (charCode (limited t ! i) mod 31 + 1) / 32)"
      by (simp add: n add_nonneg_pos)
    moreover have "0 \<le> sum_list ?v1" using w by (intro sum_list_nonneg) simp
    ultimately show ?thesis using c by simp
  qed
qed

lemma generateEmbedding_unfold:
  "generateEmbedding t =
     (let vector2 = charFeatures (take 5000 (toLowerCase t))
                      (wordFeatures (foldl (\<lambda>hs w. set_add (absHash (hashWord w)) hs) []
                         (filter (\<lambda>w. length w > 2)
                            (js_split False rx_ws_plus (take 5000 (toLowerCase t)))))
                         (replicate dimension 0));
          norm0 = sqrt (sumSquares vector2)
      in map (\<lambda>v. v / (if norm0 = 0 then 1 else norm0)) vector2)"
  by (simp add: generateEmbedding_def Let_def)

lemma generateEmbedding_length: "length (generateEmbedding t) = 256"
  using vector2_props(1) [of t] by (simp add: generateEmbedding_unfold Let_def)

lemma generateEmbedding_norm:
  assumes "t \<noteq> []"
  shows "euclideanNorm (generateEmbedding t) = 1"
proof -
  define v where "v = charFeatures (take 5000 (toLowerCase t))
                      (wordFeatures (foldl (\<lambda>hs w. set_add (absHash (hashWord w)) hs) []
                         (filter (\<lambda>w. length w > 2)
                            (js_split False rx_ws_plus (take 5000 (toLowerCase t)))))
                         (replicate dimension 0))"
  define S where "S = (\<Sum>x\<leftarrow>v. x * x)"
  have "0 < S"
    unfolding S_def v_def using vector2_props(2,3) [of t] assms by (intro sum_squares_pos) auto
  then have n: "sqrt S \<noteq> 0" "sqrt S * sqrt S = S" by simp_all
  have g: "generateEmbedding t = map (\<lambda>x. x / sqrt S) v"
    using n(1) by (simp add: generateEmbedding_unfold Let_def v_def S_def sumSquares_def sumSquares_eq)
  show ?thesis
    unfolding g euclideanNorm_def sum_squares_scaled n(2) using \<open>0 < S\<close> by (simp add: S_def)
qed

lemma js_split_ws_empty: "js_split False rx_ws_plus [] = [[]]"
  by (simp add: js_split_def rx_ws_plus_def)

lemma generateEmbedding_empty: "generateEmbedding [] = replicate 256 0"
  by (simp add: generateEmbedding_unfold Let_def toLowerCase_def js_split_ws_empty
      wordFeatures_def charFeatures_def sumSquares_def sumSquares_eq dimension_def)

lemma euclideanNorm_zero: "euclideanNorm (replicate n 0) = 0"
  by (induction n) (simp_all add: euclideanNorm_def)

text \<open>
  C2, as amended. The fallback embedding of every text has exactly 256 components. For
  every text that is not empty its Euclidean norm is 1; the empty text has no feature,
  the zero-norm guard (\<^verbatim>\<open>|| 1\<close>) leaves the vector as it is, and the result is the
  zero vector. The embedding is a function of the text alone: the fallback path reads no
  clock, no random source and no state outside the call.
\<close>

theorem generateEmbedding_fallback:
  "length (generateEmbedding t) = 256
   \<and> (t \<noteq> [] \<longrightarrow> euclideanNorm (generateEmbedding t) = 1)
   \<and> (t = [] \<longrightarrow> generateEmbedding t = replicate 256 0)"
  using generateEmbedding_length [of t] generateEmbedding_norm [of t] generateEmbedding_empty
  by auto

theorem generateEmbedding_fallback_witness:
  "length (generateEmbedding ''cat'') = 256 \<and> euclideanNorm (generateEmbedding ''cat'') = 1
   \<and> generateEmbedding [] = replicate 256 0"
  using generateEmbedding_fallback [of "''cat''"] generateEmbedding_fallback [of "[]"]
  by simp

text \<open>
  C2 as stated fails at the empty text: its embedding has norm 0, which is not within
  \<open>10\<^sup>-\<^sup>6\<close> of 1.
\<close>

theorem generateEmbedding_empty_counterexample:
  "euclideanNorm (generateEmbedding []) = 0
   \<and> \<not> \<bar>euclideanNorm (generateEmbedding []) - 1\<bar> \<le> 1 / 1000000"
  by (simp add: generateEmbedding_empty euclideanNorm_zero)

section \<open>Retrieval: the two search stages of the query endpoint\<close>

record text_result =
  tr_chunk :: documentChunk
  score :: nat
  tr_documentName :: string

record similarity_result =
  chunk :: documentChunk
  similarity :: real
  documentName :: string

definition getAllDocuments :: "storage \<Rightarrow> document list" where
  "getAllDocuments s = sort_key (\<lambda>d. - int (uploadedAt d)) (map_values (documents s))"

definition documentMapOf :: "storage \<Rightarrow> (string, string) jsmap" where
  "documentMapOf s = foldl (\<lambda>m d. map_set (doc_id d) (originalName d) m) [] (getAllDocuments s)"

definition documentNameFor :: "(string, string) jsmap \<Rightarrow> documentChunk \<Rightarrow> string" where
  "documentNameFor documentMap c =
     (case map_get documentMap (documentId c) of
        None \<Rightarrow> ''Unknown Document''
      | Some n \<Rightarrow> if n = [] then ''Unknown Document'' else n)"

definition queryWordsOf :: "string \<Rightarrow> string list" where
  "queryWordsOf queryLower = filter (\<lambda>w. length w > 2) (js_split False rx_ws_plus queryLower)"

definition matchScoreOf :: "string list \<Rightarrow> string \<Rightarrow> nat" where
  "matchScoreOf queryWords chunkText =
     foldl (\<lambda>matchScore w. if str_includes chunkText w then matchScore + 1 else matchScore)
       0 queryWords"

definition isDefinitionQuery :: "string \<Rightarrow> bool" where
  "isDefinitionQuery queryLower =
     (str_includes queryLower ''what is'' \<or> str_includes queryLower ''define''
      \<or> str_includes queryLower ''explain'')"

definition definitionWords :: "string list" where
  "definitionWords = [''is'', ''means'', ''refers to'', ''defined as'', ''answer:'', ''question:'', ''q:'']"

definition hasDefinitionWords :: "string \<Rightarrow> bool" where
  "hasDefinitionWords chunkText = list_ex (\<lambda>w. str_includes chunkText w) definitionWords"

definition textSearchStep ::
  "string \<Rightarrow> (string, string) jsmap \<Rightarrow> text_result list \<Rightarrow> documentChunk \<Rightarrow> text_result list" where
  "textSearchStep query documentMap textSearchResults c =
     (let chunkText = toLowerCase (chunk_text c);
          queryLower = toLowerCase query;
          queryWords = queryWordsOf queryLower;
          matchScore = matchScoreOf queryWords chunkText
      in if isDefinitionQuery queryLower
         then (if matchScore > 0 \<and> hasDefinitionWords chunkText
               then textSearchResults @
                    [\<lparr>tr_chunk = c, score = matchScore + 2,
                      tr_documentName = documentNameFor documentMap c\<rparr>]
               else textSearchResults)
         else (if matchScore > 0
               then textSearchResults @
                    [\<lparr>tr_chunk = c, score = matchScore,
                      tr_documentName = documentNameFor documentMap c\<rparr>]
               else textSearchResults))"

definition textSearchResultsOf :: "storage \<Rightarrow> string \<Rightarrow> text_result list" where
  "textSearchResultsOf s query =
     foldl (textSearchStep query (documentMapOf s)) [] (getAllChunks s)"

definition textStage :: "storage \<Rightarrow> string \<Rightarrow> similarity_result list" where
  "textStage s query =
     map (\<lambda>r. \<lparr>chunk = tr_chunk r, similarity = real (score r) / 10,
                documentName = tr_documentName r\<rparr>)
       (take 10 (sort_key (\<lambda>r. - int (score r)) (textSearchResultsOf s query)))"

text \<open>
  One round of the loop of \<^verbatim>\<open>searchSimilarChunks\<close>. A chunk with no stored embedding
  is passed over; one whose embedding does not parse, or has another length than the
  query's, raises inside the loop body, where the exception is caught and the chunk is
  passed over too. A \<^verbatim>\<open>NaN\<close> similarity fails the comparison with the threshold; an
  infinite one cannot occur (\<open>cosineSimilarity_finite\<close>).
\<close>

definition vectorStep ::
  "real list \<Rightarrow> real \<Rightarrow> (string, string) jsmap \<Rightarrow> similarity_result list \<Rightarrow> documentChunk
     \<Rightarrow> similarity_result list" where
  "vectorStep queryEmbedding threshold documentMap similarities c =
     (case embedding c of
        None \<Rightarrow> similarities
      | Some BadJson \<Rightarrow> similarities
      | Some (Vec chunkEmbedding) \<Rightarrow>
          (case cosineSimilarity queryEmbedding chunkEmbedding of
             Inl e \<Rightarrow> similarities
           | Inr (Num sim) \<Rightarrow>
               if sim \<ge> threshold
               then similarities @
                    [\<lparr>chunk = c, similarity = sim, documentName = documentNameFor documentMap c\<rparr>]
               else similarities
           | Inr other \<Rightarrow> similarities))"

definition searchSimilarChunks :: "storage \<Rightarrow> real list \<Rightarrow> nat \<Rightarrow> real \<Rightarrow> similarity_result list" where
  "searchSimilarChunks s queryEmbedding topK threshold =
     take topK (sort_key (\<lambda>r. - similarity r)
       (foldl (vectorStep queryEmbedding threshold (documentMapOf s)) [] (getAllChunks s)))"

definition vectorStage :: "storage \<Rightarrow> string \<Rightarrow> similarity_result list option" where
  "vectorStage s query =
     (if length (textStage s query) < 3
      then Some (searchSimilarChunks s (generateEmbedding query) 10 (1 / 10))
      else None)"

definition similarChunksOf :: "storage \<Rightarrow> string \<Rightarrow> similarity_result list" where
  "similarChunksOf s query =
     (case vectorStage s query of
        None \<Rightarrow> textStage s query
      | Some vectorChunks \<Rightarrow> textStage s query @ vectorChunks)"

lemma matchScoreOf_count:
  "foldl (\<lambda>matchScore w. if str_includes t w then matchScore + 1 else matchScore) n ws
     = n + length (filter (str_includes t) ws)"
  by (induction ws arbitrary: n) simp_all

lemma textSearch_loop:
  "foldl (textSearchStep query dm) acc cs =
     acc @ map (\<lambda>c. \<lparr>tr_chunk = c,
                      score = length (filter (str_includes (toLowerCase (chunk_text c)))
                                (queryWordsOf (toLowerCase query)))
                              + (if isDefinitionQuery (toLowerCase query) then 2 else 0),
                      tr_documentName = documentNameFor dm c\<rparr>)
            (filter (\<lambda>c. 0 < length (filter (str_includes (toLowerCase (chunk_text c)))
                                (queryWordsOf (toLowerCase query)))
                       \<and> (if isDefinitionQuery (toLowerCase query)
                          then hasDefinitionWords (toLowerCase (chunk_text c)) else True)) cs)"
  by (induction cs arbitrary: acc)
     (simp_all add: textSearchStep_def Let_def matchScoreOf_def matchScoreOf_count)

subsection \<open>Stage 1: the lexical candidates\<close>

text \<open>
  The raw score in the specification's words: how many query tokens (the lower-cased
  query cut at white space, tokens longer than 2 characters) occur in the lower-cased
  chunk text.
\<close>

definition rawScore :: "string \<Rightarrow> documentChunk \<Rightarrow> nat" where
  "rawScore query c =
     length (filter (str_includes (toLowerCase (chunk_text c))) (queryWordsOf (toLowerCase query)))"

text \<open>
  C4. The stage-1 candidate list holds, in storage order, exactly the chunks whose raw
  score is positive and, when the query is definition-style (its lower-cased text
  contains "what is", "define" or "explain"), whose lower-cased text contains one of the
  definition markers; the score of a candidate is its raw score plus 2 for a
  definition-style query, and its raw score otherwise.
\<close>

theorem textSearch_candidates:
  "textSearchResultsOf s query =
     map (\<lambda>c. \<lparr>tr_chunk = c,
                score = rawScore query c + (if isDefinitionQuery (toLowerCase query) then 2 else 0),
                tr_documentName = documentNameFor (documentMapOf s) c\<rparr>)
       (filter (\<lambda>c. 0 < rawScore query c
                  \<and> (if isDefinitionQuery (toLowerCase query)
                     then hasDefinitionWords (toLowerCase (chunk_text c)) else True))
          (getAllChunks s))"
  by (simp add: textSearchResultsOf_def textSearch_loop rawScore_def)

text \<open>Stores for the examples: one document and the given chunks.\<close>

definition mkChunk :: "string \<Rightarrow> int \<Rightarrow> string \<Rightarrow> stored_embedding option \<Rightarrow> documentChunk" where
  "mkChunk i n t e =
     \<lparr>chunk_id = i, documentId = ''d1'', chunkIndex = n, chunk_text = t, embedding = e\<rparr>"

definition storeOf :: "documentChunk list \<Rightarrow> storage" where
  "storeOf cs =
     \<lparr>documents = [(''d1'', \<lparr>doc_id = ''d1'', doc_filename = ''f1'', originalName = ''a.pdf'',
                              chunksCount = int (length cs), uploadedAt = 1\<rparr>)],
      documentChunks = map (\<lambda>c. (chunk_id c, c)) cs,
      queries = []\<rparr>"

lemma storeOf_chunks: "getAllChunks (storeOf cs) = cs"
  by (simp add: storeOf_def getAllChunks_def map_values_def comp_def)

lemma storeOf_name: "documentNameFor (documentMapOf (storeOf cs)) (mkChunk i n t e) = ''a.pdf''"
  by (simp add: storeOf_def documentMapOf_def getAllDocuments_def map_values_def
      documentNameFor_def map_get_def mkChunk_def)

definition definitionStore :: storage where
  "definitionStore =
     storeOf [mkChunk ''c1'' 0 ''JavaScript is a language'' None,
              mkChunk ''c2'' 1 ''javascript rocks'' None,
              mkChunk ''c3'' 2 ''Python is a language'' None]"

lemma rawScore_mk: "rawScore q (mkChunk i n t e) =
    length (filter (str_includes (toLowerCase t)) (queryWordsOf (toLowerCase q)))"
  by (simp add: rawScore_def mkChunk_def)

theorem textSearch_candidates_witness:
  "textSearchResultsOf definitionStore ''what is javascript'' =
     [\<lparr>tr_chunk = mkChunk ''c1'' 0 ''JavaScript is a language'' None, score = 3,
       tr_documentName = ''a.pdf''\<rparr>]
   \<and> textSearchResultsOf definitionStore ''javascript'' =
     [\<lparr>tr_chunk = mkChunk ''c1'' 0 ''JavaScript is a language'' None, score = 1,
       tr_documentName = ''a.pdf''\<rparr>,
      \<lparr>tr_chunk = mkChunk ''c2'' 1 ''javascript rocks'' None, score = 1,
       tr_documentName = ''a.pdf''\<rparr>]"
proof -
  have d: "isDefinitionQuery (toLowerCase ''what is javascript'')"
          "\<not> isDefinitionQuery (toLowerCase ''javascript'')"
    by code_simp+
  have r: "rawScore ''what is javascript'' (mkChunk ''c1'' 0 ''JavaScript is a language'' None) = 1"
          "rawScore ''what is javascript'' (mkChunk ''c2'' 1 ''javascript rocks'' None) = 1"
          "rawScore ''what is javascript'' (mkChunk ''c3'' 2 ''Python is a language'' None) = 0"
          "rawScore ''javascript'' (mkChunk ''c1'' 0 ''JavaScript is a language'' None) = 1"
          "rawScore ''javascript'' (mkChunk ''c2'' 1 ''javascript rocks'' None) = 1"
          "rawScore ''javascript'' (mkChunk ''c3'' 2 ''Python is a language'' None) = 0"
    unfolding rawScore_mk by code_simp+
  have h: "hasDefinitionWords (toLowerCase ''JavaScript is a language'')"
          "\<not> hasDefinitionWords (toLowerCase ''javascript rocks'')"
    by code_simp+
  have t: "chunk_text (mkChunk i n t e) = t" for i n t e by (simp add: mkChunk_def)
  show ?thesis
    using textSearch_candidates [of definitionStore "''what is javascript''"]
      textSearch_candidates [of definitionStore "''javascript''"]
    by (simp add: definitionStore_def storeOf_chunks storeOf_name d r h t)
qed

subsection \<open>Stage 2: the vector search\<close>

text \<open>
  What one chunk contributes to the vector search, in the specification's words: a
  result when the chunk has a stored embedding whose cosine similarity to the query
  embedding exists and is at least the threshold.
\<close>

definition vectorCandidate ::
  "real list \<Rightarrow> real \<Rightarrow> (string, string) jsmap \<Rightarrow> documentChunk \<Rightarrow> similarity_result option" where
  "vectorCandidate queryEmbedding threshold documentMap c =
     (case embedding c of
        Some (Vec e) \<Rightarrow>
          (case cosineSimilarity queryEmbedding e of
             Inr (Num sim) \<Rightarrow>
               if threshold \<le> sim
               then Some \<lparr>chunk = c, similarity = sim, documentName = documentNameFor documentMap c\<rparr>
               else None
           | _ \<Rightarrow> None)
      | _ \<Rightarrow> None)"

lemma vectorStep_candidate:
  "vectorStep qe th dm acc c =
     acc @ (case vectorCandidate qe th dm c of None \<Rightarrow> [] | Some r \<Rightarrow> [r])"
  by (simp add: vectorStep_def vectorCandidate_def
      split: option.splits stored_embedding.splits sum.splits jsnum.splits)

lemma foldl_push:
  assumes "\<And>acc c. step acc c = acc @ (case f c of None \<Rightarrow> [] | Some r \<Rightarrow> [r])"
  shows "foldl step acc cs = acc @ List.map_filter f cs"
proof (induction cs arbitrary: acc)
  case Nil
  show ?case by simp
next
  case (Cons c cs)
  have "foldl step acc (c # cs) = step acc c @ List.map_filter f cs"
    by (simp add: Cons.IH)
  also have "\<dots> = acc @ List.map_filter f (c # cs)"
    by (cases "f c") (simp_all add: assms)
  finally show ?case .
qed

lemma vector_loop:
  "foldl (vectorStep qe th dm) acc cs = acc @ List.map_filter (vectorCandidate qe th dm) cs"
  by (rule foldl_push) (rule vectorStep_candidate)

lemma searchSimilarChunks_eq:
  "searchSimilarChunks s qe k th =
     take k (sort_key (\<lambda>r. - similarity r)
       (List.map_filter (vectorCandidate qe th (documentMapOf s)) (getAllChunks s)))"
  by (simp add: searchSimilarChunks_def vector_loop)

lemma vectorCandidate_Some:
  assumes "vectorCandidate qe th dm c = Some r"
  shows "chunk r = c \<and> th \<le> similarity r
         \<and> (\<exists>e. embedding c = Some (Vec e) \<and> cosineSimilarity qe e = Inr (Num (similarity r)))"
  using assms
  by (auto simp: vectorCandidate_def split: option.splits stored_embedding.splits sum.splits
      jsnum.splits if_splits)

lemma searchSimilarChunks_props:
  assumes "r \<in> set (searchSimilarChunks s qe k th)"
  shows "chunk r \<in> set (getAllChunks s) \<and> th \<le> similarity r
         \<and> (\<exists>e. embedding (chunk r) = Some (Vec e)
                \<and> cosineSimilarity qe e = Inr (Num (similarity r)))"
proof -
  from assms have "r \<in> set (List.map_filter (vectorCandidate qe th (documentMapOf s)) (getAllChunks s))"
    unfolding searchSimilarChunks_eq by (auto dest: in_set_takeD)
  then obtain c where c: "c \<in> set (getAllChunks s)"
      "vectorCandidate qe th (documentMapOf s) c = Some r"
    by (auto simp: List.map_filter_def)
  from vectorCandidate_Some [OF c(2)] c(1) show ?thesis by auto
qed

lemma searchSimilarChunks_sorted:
  "sorted_wrt (\<lambda>a b. similarity a \<ge> similarity b) (searchSimilarChunks s qe k th)"
proof -
  let ?xs = "sort_key (\<lambda>r. - similarity r)
       (List.map_filter (vectorCandidate qe th (documentMapOf s)) (getAllChunks s))"
  have "sorted (map (\<lambda>r. - similarity r) ?xs)" by (rule sorted_sort_key)
  then have "sorted_wrt (\<lambda>a b. similarity a \<ge> similarity b) ?xs"
    by (simp add: sorted_wrt_map)
  then show ?thesis
    unfolding searchSimilarChunks_eq by (rule sorted_wrt_take)
qed

text \<open>
  C3. The vector search runs exactly when stage 1 gave fewer than 3 results. When it
  runs, its results are the chunks with a stored embedding whose cosine similarity to
  the query embedding is at least 0.1, sorted by similarity in descending order and cut
  to 10, and they are appended to the stage-1 list as they are: nothing is merged or
  removed, so a chunk found by both stages is listed twice. When it does not run the
  list is the stage-1 list.
\<close>

theorem vector_stage_appended:
  "(vectorStage s query \<noteq> None) = (length (textStage s query) < 3)
   \<and> (case vectorStage s query of
         None \<Rightarrow> similarChunksOf s query = textStage s query
       | Some vectorChunks \<Rightarrow>
           similarChunksOf s query = textStage s query @ vectorChunks
           \<and> vectorChunks =
               take 10 (sort_key (\<lambda>r. - similarity r)
                 (List.map_filter (vectorCandidate (generateEmbedding query) (1 / 10) (documentMapOf s))
                    (getAllChunks s)))
           \<and> length vectorChunks \<le> 10
           \<and> sorted_wrt (\<lambda>a b. similarity a \<ge> similarity b) vectorChunks
           \<and> (\<forall>r\<in>set vectorChunks.
                 chunk r \<in> set (getAllChunks s) \<and> 1 / 10 \<le> similarity r
                 \<and> (\<exists>e. embedding (chunk r) = Some (Vec e)
                        \<and> cosineSimilarity (generateEmbedding query) e = Inr (Num (similarity r)))))"
proof (cases "length (textStage s query) < 3")
  case True
  then have v: "vectorStage s query = Some (searchSimilarChunks s (generateEmbedding query) 10 (1 / 10))"
    by (simp add: vectorStage_def)
  show ?thesis
    unfolding v using True searchSimilarChunks_sorted [of s "generateEmbedding query" 10 "1 / 10"]
      searchSimilarChunks_props [of _ s "generateEmbedding query" 10 "1 / 10"]
    by (simp add: similarChunksOf_def v searchSimilarChunks_eq [symmetric])
       (simp add: searchSimilarChunks_eq)
next
  case False
  then show ?thesis by (simp add: vectorStage_def similarChunksOf_def)
qed

definition catChunk :: documentChunk where
  "catChunk = mkChunk ''c1'' 0 ''cat'' (Some (Vec (generateEmbedding ''cat'')))"

definition catStore :: storage where
  "catStore = storeOf [catChunk]"

definition threeCats :: storage where
  "threeCats = storeOf [mkChunk ''c1'' 0 ''cat'' None, mkChunk ''c2'' 1 ''a cat'' None,
                        mkChunk ''c3'' 2 ''the cat'' None]"

lemma textStage_closed:
  "textStage s query =
     map (\<lambda>r. \<lparr>chunk = tr_chunk r, similarity = real (score r) / 10,
                documentName = tr_documentName r\<rparr>)
       (take 10 (sort_key (\<lambda>r. - int (score r))
          (map (\<lambda>c. \<lparr>tr_chunk = c,
                score = rawScore query c + (if isDefinitionQuery (toLowerCase query) then 2 else 0),
                tr_documentName = documentNameFor (documentMapOf s) c\<rparr>)
       (filter (\<lambda>c. 0 < rawScore query c
                  \<and> (if isDefinitionQuery (toLowerCase query)
                     then hasDefinitionWords (toLowerCase (chunk_text c)) else True))
          (getAllChunks s)))))"
  by (simp add: textStage_def textSearchResultsOf_def textSearch_loop rawScore_def)

lemma cat_query: "\<not> isDefinitionQuery (toLowerCase ''cat'')"
  by code_simp

lemma cat_scores:
  "rawScore ''cat'' (mkChunk i n ''cat'' e) = 1"
  "rawScore ''cat'' (mkChunk i n ''a cat'' e) = 1"
  "rawScore ''cat'' (mkChunk i n ''the cat'' e) = 1"
  unfolding rawScore_mk by code_simp+

lemma cat_textStage:
  "textStage catStore ''cat'' = [\<lparr>chunk = catChunk, similarity = 1 / 10, documentName = ''a.pdf''\<rparr>]"
  by (simp add: textStage_closed catStore_def catChunk_def storeOf_chunks storeOf_name
      cat_query cat_scores)

lemma threeCats_textStage: "length (textStage threeCats ''cat'') = 3"
  by (simp add: textStage_closed threeCats_def storeOf_chunks cat_query cat_scores)

lemma cat_vectorCandidate:
  "vectorCandidate (generateEmbedding ''cat'') (1 / 10) (documentMapOf catStore) catChunk
     = Some \<lparr>chunk = catChunk, similarity = 1, documentName = ''a.pdf''\<rparr>"
proof -
  have "euclideanNorm (generateEmbedding ''cat'') = 1"
    by (rule generateEmbedding_norm) simp
  then have "cosineSimilarity (generateEmbedding ''cat'') (generateEmbedding ''cat'') = Inr (Num 1)"
    by (rule cosineSimilarity_self)
  moreover have "documentNameFor (documentMapOf catStore) catChunk = ''a.pdf''"
    by (simp add: catStore_def catChunk_def storeOf_name)
  moreover have "embedding catChunk = Some (Vec (generateEmbedding ''cat''))"
    by (simp add: catChunk_def mkChunk_def)
  ultimately show ?thesis
    by (simp add: vectorCandidate_def)
qed

theorem vector_stage_appended_witness:
  "vectorStage catStore ''cat''
     = Some [\<lparr>chunk = catChunk, similarity = 1, documentName = ''a.pdf''\<rparr>]
   \<and> similarChunksOf catStore ''cat''
     = [\<lparr>chunk = catChunk, similarity = 1 / 10, documentName = ''a.pdf''\<rparr>,
        \<lparr>chunk = catChunk, similarity = 1, documentName = ''a.pdf''\<rparr>]
   \<and> vectorStage threeCats ''cat'' = None
   \<and> similarChunksOf threeCats ''cat'' = textStage threeCats ''cat''"
proof -
  note a = vector_stage_appended [of catStore "''cat''"]
  from a have "vectorStage catStore ''cat'' \<noteq> None" by (simp add: cat_textStage)
  then obtain v where v: "vectorStage catStore ''cat'' = Some v" by auto
  from a have v_eq: "v = [\<lparr>chunk = catChunk, similarity = 1, documentName = ''a.pdf''\<rparr>]"
    and s_eq: "similarChunksOf catStore ''cat'' = textStage catStore ''cat'' @ v"
    unfolding v
    by (simp_all add: cat_vectorCandidate List.map_filter_simps
        storeOf_chunks [of "[catChunk]", folded catStore_def])
  note b = vector_stage_appended [of threeCats "''cat''"]
  from b have n: "vectorStage threeCats ''cat'' = None" by (simp add: threeCats_textStage)
  with b have "similarChunksOf threeCats ''cat'' = textStage threeCats ''cat''" by simp
  with v v_eq s_eq n show ?thesis by (simp add: cat_textStage)
qed

section \<open>Extraction: \<^verbatim>\<open>extractInformationFromContext\<close>\<close>

definition dq :: string where
  "dq = [CHR 0x22]"

definition charRange :: "char \<Rightarrow> char \<Rightarrow> char \<Rightarrow> bool" where
  "charRange a b c = (charCode a \<le> charCode c \<and> charCode c \<le> charCode b)"

definition cls_upper :: atom where
  "cls_upper = In (charRange CHR ''A'' CHR ''Z'')"

definition cls_lower :: atom where
  "cls_lower = In (charRange CHR ''a'' CHR ''z'')"

definition cls_lower_space :: atom where
  "cls_lower_space = In (\<lambda>c. charRange CHR ''a'' CHR ''z'' c \<or> isSpace c)"

definition cls_digit :: atom where
  "cls_digit = In (charRange CHR ''0'' CHR ''9'')"

definition cls_space :: atom where
  "cls_space = In isSpace"

definition cls_not :: "char \<Rightarrow> atom" where
  "cls_not x = NotIn (\<lambda>c. c = x)"

definition plus :: "atom \<Rightarrow> rx" where
  "plus a = Rep a 1 None True"

definition star :: "atom \<Rightarrow> rx" where
  "star a = Rep a 0 None True"

definition star_lazy :: "atom \<Rightarrow> rx" where
  "star_lazy a = Rep a 0 None False"

definition between :: "atom \<Rightarrow> nat \<Rightarrow> nat \<Rightarrow> rx" where
  "between a lo hi = Rep a lo (Some hi) True"

text \<open>The subject patterns: \<^verbatim>\<open>/what is\s+([^?]+)/i\<close> and its two siblings.\<close>

definition rx_subject :: "string \<Rightarrow> rx" where
  "rx_subject w = rxs [lit w, plus cls_space, Grp 1 (plus (cls_not CHR ''?''))]"

definition matchSubject :: "string \<Rightarrow> string \<Rightarrow> string" where
  "matchSubject w query =
     (case js_match True (rx_subject w) query of
        None \<Rightarrow> []
      | Some (m, cs) \<Rightarrow> trim (capture cs 1))"

definition commonTechTerms :: "string list" where
  "commonTechTerms = [''javascript'', ''html'', ''css'', ''react'', ''node'', ''python'', ''java'', ''sql'']"

definition techTerms :: "(string \<times> string) list" where
  "techTerms =
     [(''html'', ''HTML''), (''htm'', ''HTML''), (''javascript'', ''JavaScript''),
      (''js'', ''JavaScript''), (''css'', ''CSS''), (''react'', ''React''),
      (''node'', ''Node.js''), (''python'', ''Python''), (''java'', ''Java'')]"

datatype js_error = SyntaxError | TypeError

definition resolvePronoun :: "string \<Rightarrow> string \<Rightarrow> string" where
  "resolvePronoun ctx subject =
     (if subject = ''it more'' \<or> subject = ''it''
      then (case filter (\<lambda>term0. str_includes (toLowerCase ctx) term0) commonTechTerms of
              [] \<Rightarrow> subject
            | term0 # _ \<Rightarrow> term0)
      else subject)"

text \<open>
  The table of technical terms is an object literal, so a look-up by key also finds what
  the object inherits. The lower-cased subjects \<^verbatim>\<open>constructor\<close> and \<^verbatim>\<open>__proto__\<close>
  are the two inherited keys in lower case: the look-up gives a function or an object
  instead of a string, the subject becomes that value, and the next call of
  \<^verbatim>\<open>subject.toLowerCase()\<close> raises a \<^verbatim>\<open>TypeError\<close>.
\<close>

definition normalizeSubject :: "string \<Rightarrow> js_error + string" where
  "normalizeSubject subject =
     (if subject = [] then Inr subject
      else if toLowerCase subject \<in> set [''constructor'', ''__proto__''] then Inl TypeError
      else (case map_of techTerms (toLowerCase subject) of
              None \<Rightarrow> Inr subject
            | Some normalizedSubject \<Rightarrow> Inr normalizedSubject))"

definition extractSubject :: "string \<Rightarrow> string \<Rightarrow> js_error + string" where
  "extractSubject ctx query =
     (let lowerQuery = toLowerCase query
      in if str_includes lowerQuery ''what is'' then Inr (matchSubject ''what is'' query)
         else if str_includes lowerQuery ''define'' then Inr (matchSubject ''define'' query)
         else if str_includes lowerQuery ''explain''
         then normalizeSubject (resolvePronoun ctx (matchSubject ''explain'' query))
         else Inr [])"

text \<open>
  The seven definition patterns are built from the subject at run time, so their syntax
  is whatever the subject makes it. \<^verbatim>\<open>new RegExp(source, 'i')\<close> is a parameter of the
  model: it gives no pattern when the source is not a regular expression (a
  \<^verbatim>\<open>SyntaxError\<close>), and otherwise what \<^verbatim>\<open>context.match\<close> finds with it: no match,
  or the first capture, which is absent when group 1 took no part in the match.
\<close>

datatype dyn_match = NoMatch | Group1 "string option"

type_synonym regexp_new = "string \<Rightarrow> (string \<Rightarrow> dyn_match) option"

definition bs :: string where
  "bs = [CHR 0x5C]"

definition definitionPatternSources :: "string \<Rightarrow> string list" where
  "definitionPatternSources subject =
     (let subjectLower = toLowerCase subject
      in [''what is '' @ subjectLower @ bs @ ''?[^:]*answer[^:]*([^.]{30,800})'',
          ''what is '' @ subjectLower @ bs @ ''?[^:]*([^.]{30,800})'',
          subject @ bs @ ''s+is'' @ bs @ ''s+([^.]{30,800})'',
          subject @ bs @ ''s+means'' @ bs @ ''s+([^.]{30,800})'',
          subject @ bs @ ''s+refers to'' @ bs @ ''s+([^.]{30,800})'',
          subject @ ''[^.]*?([^.]{50,1000})'',
          subject @ bs @ ''s+([^.]{30,800})''])"

definition definitionKeywords :: "string list" where
  "definitionKeywords =
     [''is'', ''means'', ''refers to'', ''defined as'', ''a type of'', ''a form of'', ''used for'',
      ''purpose'', ''function'', ''language'', ''framework'', ''library'', ''technology'', ''tool'']"

definition validDefinition :: "string \<Rightarrow> string \<Rightarrow> nat \<Rightarrow> string \<Rightarrow> bool" where
  "validDefinition lowerQuery subjectLower i result =
     (let hasDefinitionKeywords =
            list_ex (\<lambda>keyword. str_includes (toLowerCase result) keyword) definitionKeywords;
          containsSubject = str_includes (toLowerCase result) subjectLower;
          startsWithSubject = startsWith (toLowerCase result) subjectLower;
          isAboutSubject = (str_includes (toLowerCase result) (subjectLower @ '' '')
                            \<or> str_includes (toLowerCase result) ('' '' @ subjectLower));
          isDetailedExplanation = (str_includes lowerQuery ''detail'' \<or> str_includes lowerQuery ''more''
                                   \<or> str_includes lowerQuery ''explain'')
      in ((hasDefinitionKeywords \<or> i < 3) \<and> (containsSubject \<and> (startsWithSubject \<or> isAboutSubject)))
         \<or> (isDetailedExplanation \<and> length result > 50 \<and> containsSubject
             \<and> (startsWithSubject \<or> isAboutSubject)))"

fun definitionLoop ::
  "string \<Rightarrow> string \<Rightarrow> string \<Rightarrow> nat \<Rightarrow> (string \<Rightarrow> dyn_match) list \<Rightarrow> js_error + string option" where
  "definitionLoop ctx lowerQuery subjectLower i [] = Inr None"
| "definitionLoop ctx lowerQuery subjectLower i (pattern # patterns) =
     (case pattern ctx of
        NoMatch \<Rightarrow> definitionLoop ctx lowerQuery subjectLower (Suc i) patterns
      | Group1 None \<Rightarrow> Inl TypeError
      | Group1 (Some g) \<Rightarrow>
          if length (trim g) > 20 \<and> validDefinition lowerQuery subjectLower i (trim g)
          then Inr (Some (trim g))
          else definitionLoop ctx lowerQuery subjectLower (Suc i) patterns)"

text \<open>The pattern \<^verbatim>\<open>/[.!?]+/\<close> that cuts a context into sentences.\<close>

definition rx_sentence_end :: rx where
  "rx_sentence_end = plus (In (\<lambda>c. c \<in> set ''.!?''))"

definition join :: "string \<Rightarrow> string list \<Rightarrow> string" where
  "join sep xs = (case xs of [] \<Rightarrow> [] | x # rest \<Rightarrow> foldl (\<lambda>acc y. acc @ sep @ y) x rest)"

definition sentenceFallback :: "string \<Rightarrow> string \<Rightarrow> string \<Rightarrow> string option" where
  "sentenceFallback ctx lowerQuery subjectLower =
     (let sentences = js_split False rx_sentence_end ctx;
          relevantSentences =
            filter (\<lambda>sentence.
                      let lowerSentence = toLowerCase sentence
                      in str_includes lowerSentence subjectLower \<and> length (trim sentence) > 30
                         \<and> (str_includes lowerSentence ''is '' \<or> str_includes lowerSentence ''means ''
                            \<or> str_includes lowerSentence ''refers to ''
                            \<or> str_includes lowerSentence ''defined as ''))
              sentences
      in case relevantSentences of
           [] \<Rightarrow> None
         | first # _ \<Rightarrow>
             (let detailed = trim (join '' '' (take 3 relevantSentences))
              in if (str_includes lowerQuery ''detail'' \<or> str_includes lowerQuery ''more'')
                    \<and> str_includes (toLowerCase detailed) subjectLower
                 then Some detailed
                 else if str_includes (toLowerCase (trim first)) subjectLower
                 then Some (trim first)
                 else None))"

definition notFoundMessage :: "string \<Rightarrow> string" where
  "notFoundMessage subject =
     ''Information about '' @ dq @ subject @ dq @ '' not found in the document.''"

definition noDefinitionMessage :: "string \<Rightarrow> string" where
  "noDefinitionMessage subject =
     ''Information about '' @ dq @ subject @ dq
       @ '' is mentioned in the document but no definition or explanation is available.''"

definition definitionBranch :: "regexp_new \<Rightarrow> string \<Rightarrow> string \<Rightarrow> string \<Rightarrow> js_error + string" where
  "definitionBranch regexpNew ctx lowerQuery subject =
     (let subjectLower = toLowerCase subject;
          contextLower = toLowerCase ctx
      in if \<not> str_includes contextLower subjectLower then Inr (notFoundMessage subject)
         else (let definitionPatterns = map regexpNew (definitionPatternSources subject)
               in if list_ex (\<lambda>p. p = None) definitionPatterns then Inl SyntaxError
                  else (case definitionLoop ctx lowerQuery subjectLower 0
                               (map the definitionPatterns) of
                          Inl e \<Rightarrow> Inl e
                        | Inr (Some result) \<Rightarrow> Inr result
                        | Inr None \<Rightarrow>
                            (case sentenceFallback ctx lowerQuery subjectLower of
                               Some result \<Rightarrow> Inr result
                             | None \<Rightarrow> Inr (noDefinitionMessage subject)))))"

text \<open>Project names: the two global patterns of the project branch.\<close>

definition projectSuffixes :: "string list" where
  "projectSuffixes = [''Manager'', ''Detector'', ''System'', ''App'', ''Application'', ''Tool'', ''Platform'']"

definition rx_project_name :: rx where
  "rx_project_name =
     Grp 1 (rxs [Atom cls_upper, plus cls_lower_space, alts (map lit projectSuffixes)])"

definition rx_project_pipe :: rx where
  "rx_project_pipe = rxs [Grp 1 (rxs [Atom cls_upper, plus cls_lower_space]), lit ''|'']"

definition projectCandidates :: "string \<Rightarrow> string list" where
  "projectCandidates ctx =
     foldl (\<lambda>projects pattern.
              projects @ filter (\<lambda>m. length m > 3) (map trim (js_match_all False pattern ctx)))
       [] [rx_project_name, rx_project_pipe]"

definition projectListing :: "string \<Rightarrow> string" where
  "projectListing ctx =
     (let projects = projectCandidates ctx
      in if length projects > 0 then join '', '' (take 3 projects)
         else ''No projects found in the document.'')"

text \<open>The person-name branch.\<close>

definition rx_two_names :: rx where
  "rx_two_names =
     Grp 1 (rxs [Atom cls_upper, plus cls_lower, lit '' '', Atom cls_upper, plus cls_lower])"

definition personName :: "string \<Rightarrow> string" where
  "personName ctx =
     (case js_match False rx_two_names ctx of
        Some (m, cs) \<Rightarrow> capture cs 1
      | None \<Rightarrow>
          (case js_match False (lit ''Shreyas Chougule'') ctx of
             Some (m, cs) \<Rightarrow> m
           | None \<Rightarrow> ''Name not found''))"

text \<open>
  The institution, employer, date and skills branches: each tries its patterns in order
  and takes the first that matches.
\<close>

definition firstMatch :: "bool \<Rightarrow> rx list \<Rightarrow> string \<Rightarrow> (string \<times> captures) option" where
  "firstMatch icase patterns ctx =
     (case List.map_filter (\<lambda>pattern. js_match icase pattern ctx) patterns of
        [] \<Rightarrow> None
      | m # _ \<Rightarrow> Some m)"

definition rx_institution :: rx where
  "rx_institution =
     Grp 1 (rxs [Atom cls_upper, plus cls_lower_space,
                 alts (map lit [''University'', ''College'', ''Institute'', ''School''])])"

definition collegePatterns :: "rx list" where
  "collegePatterns =
     [rx_institution,
      rxs [lit ''Education'', star (cls_not CHR ''.''), rx_institution],
      rxs [lit ''Bachelor'', star (cls_not CHR ''.''), rx_institution],
      rxs [lit ''Degree'', star (cls_not CHR ''.''), rx_institution],
      rxs [rx_institution, star (cls_not CHR ''.''), lit ''Bachelor''],
      rxs [rx_institution, star (cls_not CHR ''.''), lit ''Degree''],
      rxs [rx_institution, star (cls_not CHR ''.''), lit ''Education'']]"

definition collegeName :: "string \<Rightarrow> string" where
  "collegeName ctx =
     (case firstMatch True collegePatterns ctx of
        Some (m, cs) \<Rightarrow> trim (capture cs 1)
      | None \<Rightarrow> trim (take 300 ctx))"

definition rx_company :: rx where
  "rx_company =
     Grp 1 (rxs [Atom cls_upper, plus cls_lower_space,
                 alts (map lit [''Technology'', ''Corp'', ''Corporation'', ''Inc'', ''LLC'', ''Ltd''])])"

definition companyPatterns :: "rx list" where
  "companyPatterns =
     [rx_company,
      rxs [lit ''Work Experience'', star (cls_not CHR ''.''), rx_company],
      rxs [lit ''Intern'', star (cls_not CHR ''.''), rx_company],
      rxs [lit ''Software Development'', star (cls_not CHR ''.''), rx_company]]"

definition companyName :: "string \<Rightarrow> string option" where
  "companyName ctx =
     map_option (\<lambda>(m, cs). trim (capture cs 1)) (firstMatch True companyPatterns ctx)"

definition digits :: "nat \<Rightarrow> nat \<Rightarrow> rx" where
  "digits lo hi = Rep cls_digit lo (Some hi) True"

definition datePatterns :: "rx list" where
  "datePatterns =
     [rxs [Grp 1 (alts (map lit [''Jan'', ''Feb'', ''Mar'', ''Apr'', ''May'', ''Jun'', ''Jul'', ''Aug'',
                                  ''Sep'', ''Oct'', ''Nov'', ''Dec''])),
           plus cls_space, digits 4 4],
      rxs [digits 4 4, star cls_space, lit ''-'', star cls_space, digits 4 4],
      rxs [digits 1 2, lit ''/'', digits 1 2, lit ''/'', digits 4 4],
      rxs [digits 4 4, lit ''-'', digits 2 2, lit ''-'', digits 2 2]]"

definition dateOf :: "string \<Rightarrow> string option" where
  "dateOf ctx = map_option fst (firstMatch False datePatterns ctx)"

definition rx_labelled :: "string \<Rightarrow> rx" where
  "rx_labelled label =
     rxs [lit label, star (In (\<lambda>c. c = CHR '':'' \<or> isSpace c)), Grp 1 (plus (cls_not CHR ''.''))]"

definition skillPatterns :: "rx list" where
  "skillPatterns =
     map rx_labelled [''Skills'', ''Technical Skills'', ''Programming Languages'', ''Technologies'']"

definition skillsOf :: "string \<Rightarrow> string option" where
  "skillsOf ctx =
     map_option (\<lambda>(m, cs). trim (capture cs 1)) (firstMatch True skillPatterns ctx)"

text \<open>
  The second project branch of the source (\<^verbatim>\<open>IMPROVED PROJECT EXTRACTION\<close>). It
  stands behind the first one, which returns for every query that names a project.
\<close>

definition rx_described :: "string \<Rightarrow> rx" where
  "rx_described name =
     Grp 1 (rxs [lit name, star_lazy (cls_not CHR ''.''), Grp 2 (between (cls_not CHR ''.'') 50 300)])"

definition rx_project_description :: rx where
  "rx_project_description =
     rxs [rx_project_name, star_lazy (cls_not CHR ''.''), Grp 2 (between (cls_not CHR ''.'') 50 200)]"

definition improvedProjectExtraction :: "string \<Rightarrow> string \<Rightarrow> string" where
  "improvedProjectExtraction ctx lowerQuery =
     (let accident =
            (if str_includes lowerQuery ''accident''
             then map_option (\<lambda>(m, cs). capture cs 1)
                    (js_match True (rx_described ''Accident Detector'') ctx)
             else None);
          tournament =
            (if str_includes lowerQuery ''tournament'' \<or> str_includes lowerQuery ''manager''
             then map_option (\<lambda>(m, cs). capture cs 1)
                    (js_match True (rx_described ''Tournament Manager'') ctx)
             else None);
          description =
            map_option (\<lambda>(m, cs). capture cs 1 @ '': '' @ trim (capture cs 2))
              (js_match False rx_project_description ctx);
          projectName =
            map_option (\<lambda>(m, cs). capture cs 1) (js_match False rx_project_name ctx);
          candidates =
            (if str_includes lowerQuery ''explain'' \<or> str_includes lowerQuery ''describe''
             then [accident, tournament, description, projectName]
             else [projectName])
      in case List.map_filter id candidates of
           [] \<Rightarrow> trim (take 300 ctx)
         | r # _ \<Rightarrow> r)"

text \<open>The last resort: the sentence that shares most words with the query.\<close>

definition bestSentence :: "string \<Rightarrow> string \<Rightarrow> string" where
  "bestSentence ctx lowerQuery =
     fst (foldl (\<lambda>(bestMatch, bestScore) sentence.
                   if length (trim sentence) > 20
                   then (let score0 = matchScoreOf (queryWordsOf lowerQuery) (toLowerCase sentence)
                         in if score0 > bestScore then (trim sentence, score0)
                            else (bestMatch, bestScore))
                   else (bestMatch, bestScore))
            ([], 0) (js_split False rx_sentence_end ctx))"

definition genericFallback :: "string \<Rightarrow> string \<Rightarrow> string" where
  "genericFallback ctx lowerQuery =
     (let bestMatch = bestSentence ctx lowerQuery
      in if bestMatch \<noteq> [] then bestMatch
         else (let contextSnippet = trim (take 300 ctx)
               in if contextSnippet \<noteq> [] then contextSnippet
                  else ''Information not found in the document.''))"

definition orElse :: "'a option \<Rightarrow> 'a \<Rightarrow> 'a" where
  "orElse x y = (case x of Some r \<Rightarrow> r | None \<Rightarrow> y)"

definition laterIntents :: "string \<Rightarrow> string \<Rightarrow> string" where
  "laterIntents ctx lowerQuery =
     (if str_includes lowerQuery ''project'' then projectListing ctx
      else if str_includes lowerQuery ''name''
              \<and> (str_includes lowerQuery ''candidate'' \<or> str_includes lowerQuery ''person'')
      then personName ctx
      else if str_includes lowerQuery ''college'' \<or> str_includes lowerQuery ''university''
              \<or> str_includes lowerQuery ''institute''
      then collegeName ctx
      else orElse (if str_includes lowerQuery ''company'' \<or> str_includes lowerQuery ''employer''
                      \<or> str_includes lowerQuery ''work''
                   then companyName ctx else None)
          (orElse (if str_includes lowerQuery ''date'' \<or> str_includes lowerQuery ''when''
                      \<or> str_includes lowerQuery ''time''
                   then dateOf ctx else None)
          (if str_includes lowerQuery ''project'' then improvedProjectExtraction ctx lowerQuery
           else orElse (if str_includes lowerQuery ''skill'' \<or> str_includes lowerQuery ''technology''
                           \<or> str_includes lowerQuery ''programming''
                        then skillsOf ctx else None)
                  (genericFallback ctx lowerQuery))))"

definition extractInformationFromContext :: "regexp_new \<Rightarrow> string \<Rightarrow> string \<Rightarrow> js_error + string" where
  "extractInformationFromContext regexpNew ctx query =
     (case extractSubject ctx query of
        Inl e \<Rightarrow> Inl e
      | Inr subject \<Rightarrow>
          if subject \<noteq> [] then definitionBranch regexpNew ctx (toLowerCase query) subject
          else Inr (laterIntents ctx (toLowerCase query)))"

lemma extractSubject_trigger:
  assumes "extractSubject ctx query = Inr X" "X \<noteq> []"
  shows "isDefinitionQuery (toLowerCase query)"
  using assms by (auto simp: extractSubject_def isDefinitionQuery_def Let_def split: if_splits)

subsection \<open>The definition branch\<close>

text \<open>
  When the subject pattern of the query gives a subject \<open>X\<close> that is not empty (after
  pronoun resolution and normalisation), and the lower-cased \<open>X\<close> does not occur in the
  lower-cased context, the extraction returns the not-found message for \<open>X\<close>: no later
  rule is tried, whatever the run-time patterns would have matched.
\<close>

lemma subject_absent_not_found:
  assumes "extractSubject ctx query = Inr X"
    and "X \<noteq> []"
    and "\<not> str_includes (toLowerCase ctx) (toLowerCase X)"
  shows "isDefinitionQuery (toLowerCase query)
         \<and> extractInformationFromContext regexpNew ctx query = Inr (notFoundMessage X)"
  using assms extractSubject_trigger [OF assms(1,2)]
  by (simp add: extractInformationFromContext_def definitionBranch_def Let_def)

lemma subject_absent_not_found_example:
  "extractSubject ''JavaScript is a language.'' ''What is Python?'' = Inr ''Python''
   \<and> \<not> str_includes (toLowerCase ''JavaScript is a language.'') (toLowerCase ''Python'')
   \<and> extractInformationFromContext (\<lambda>source. None) ''JavaScript is a language.'' ''What is Python?''
       = Inr (''Information about '' @ dq @ ''Python'' @ dq @ '' not found in the document.'')"
proof -
  have s: "extractSubject ''JavaScript is a language.'' ''What is Python?'' = Inr ''Python''"
    by code_simp
  have n: "\<not> str_includes (toLowerCase ''JavaScript is a language.'') (toLowerCase ''Python'')"
    by code_simp
  have "''Python'' \<noteq> []" by simp
  from subject_absent_not_found [OF s this n, of "\<lambda>source. None"] s n
  show ?thesis by (simp add: notFoundMessage_def)
qed

text \<open>
  C1 fails for the query "explain constructor". The definition branch triggers and the
  subject pattern gives the subject "constructor", which occurs nowhere in the context
  "nothing relevant here"; the not-found message for it is due. The look-up of the
  subject in the table of technical terms finds the inherited constructor function, and
  the extraction raises a \<^verbatim>\<open>TypeError\<close> before the test that the subject occurs in the
  context is reached, whatever the run-time patterns are.
\<close>

theorem definition_subject_type_error:
  "isDefinitionQuery (toLowerCase ''explain constructor'')
   \<and> matchSubject ''explain'' ''explain constructor'' = ''constructor''
   \<and> \<not> str_includes (toLowerCase ''nothing relevant here'') (toLowerCase ''constructor'')
   \<and> (\<forall>regexpNew.
         extractInformationFromContext regexpNew ''nothing relevant here'' ''explain constructor''
           = Inl TypeError
         \<and> extractInformationFromContext regexpNew ''nothing relevant here'' ''explain constructor''
           \<noteq> Inr (notFoundMessage ''constructor''))"
proof -
  have t: "isDefinitionQuery (toLowerCase ''explain constructor'')" by code_simp
  have m: "matchSubject ''explain'' ''explain constructor'' = ''constructor''" by code_simp
  have n: "\<not> str_includes (toLowerCase ''nothing relevant here'') (toLowerCase ''constructor'')"
    by code_simp
  have s: "extractSubject ''nothing relevant here'' ''explain constructor'' = Inl TypeError"
    by code_simp
  have "extractInformationFromContext regexpNew ''nothing relevant here'' ''explain constructor''
          = Inl TypeError" for regexpNew
    unfolding extractInformationFromContext_def s by simp
  with t m n show ?thesis by simp
qed



subsection \<open>The project branch\<close>




section \<open>The query endpoint\<close>

record source_result =
  docName :: string
  src_chunkIndex :: int
  src_text :: string
  src_similarity :: real
  relevance :: string

datatype response = BadRequest string | Answer string "source_result list" | ServerError js_error

definition mathRound :: "real \<Rightarrow> real" where
  "mathRound x = of_int \<lfloor>x + 1 / 2\<rfloor>"

definition formatSource :: "similarity_result \<Rightarrow> source_result" where
  "formatSource result =
     \<lparr>docName = documentName result,
      src_chunkIndex = chunkIndex (chunk result),
      src_text = take 500 (chunk_text (chunk result))
                 @ (if length (chunk_text (chunk result)) > 500 then ''...'' else []),
      src_similarity = mathRound (similarity result * 100) / 100,
      relevance = (if similarity result > 9 / 10 then ''Very High''
                   else if similarity result > 8 / 10 then ''High''
                   else if similarity result > 7 / 10 then ''Medium'' else ''Low'')\<rparr>"

function decimal :: "nat \<Rightarrow> string" where
  "decimal n = (if n < 10 then [char_of (48 + n)] else decimal (n div 10) @ [char_of (48 + n mod 10)])"
  by pat_completeness auto
termination
  by (relation "measure id") auto

declare decimal.simps [simp del]

definition contextOf :: "similarity_result list \<Rightarrow> string" where
  "contextOf sortedChunks =
     join [CHR 0x0A, CHR 0x0A]
       (map (\<lambda>(index, result). ''[Source '' @ decimal (index + 1) @ '']: '' @ chunk_text (chunk result))
          (enumerate 0 (take 8 sortedChunks)))"

definition handleQuery :: "regexp_new \<Rightarrow> storage \<Rightarrow> string \<Rightarrow> response" where
  "handleQuery regexpNew s query =
     (if query = [] \<or> trim query = [] then BadRequest ''Query is required''
      else (let similarChunks = similarChunksOf s query
            in if similarChunks = []
               then Answer (''I couldn't find any information about '' @ dq @ query @ dq
                            @ '' in your uploaded documents. The information you're looking for may not be present in the current documents.'') []
               else (let sortedChunks = sort_key (\<lambda>r. - similarity r) similarChunks
                     in case extractInformationFromContext regexpNew (contextOf sortedChunks) query of
                          Inl e \<Rightarrow> ServerError e
                        | Inr answer \<Rightarrow>
                            if answer = [] \<or> trim answer = []
                            then Answer (''I couldn't find any information about '' @ dq @ query @ dq
                                         @ '' in your uploaded documents.'') []
                            else Answer answer (map formatSource sortedChunks))))"

definition oneChunkStore :: storage where
  "oneChunkStore =
     \<lparr>documents = [(''d1'', \<lparr>doc_id = ''d1'', doc_filename = ''f1'', originalName = ''a.pdf'',
                              chunksCount = 1, uploadedAt = 1\<rparr>)],
      documentChunks = [(''c1'', \<lparr>chunk_id = ''c1'', documentId = ''d1'', chunkIndex = 0,
                                   chunk_text = ''cat'', embedding = None\<rparr>)],
      queries = []\<rparr>"

definition elevenCats :: string where
  "elevenCats = ''cat cat cat cat cat cat cat cat cat cat cat''"

lemma elevenCats_text:
  "textSearchResultsOf oneChunkStore elevenCats =
     [\<lparr>tr_chunk = \<lparr>chunk_id = ''c1'', documentId = ''d1'', chunkIndex = 0,
                     chunk_text = ''cat'', embedding = None\<rparr>,
       score = 11, tr_documentName = ''a.pdf''\<rparr>]"
  by code_simp

lemma elevenCats_textStage:
  "textStage oneChunkStore elevenCats =
     [\<lparr>chunk = \<lparr>chunk_id = ''c1'', documentId = ''d1'', chunkIndex = 0,
                  chunk_text = ''cat'', embedding = None\<rparr>,
       similarity = 11 / 10, documentName = ''a.pdf''\<rparr>]"
  by (simp add: textStage_def elevenCats_text)

lemma elevenCats_vector: "searchSimilarChunks oneChunkStore qe k th = []"
  by (simp add: searchSimilarChunks_def oneChunkStore_def getAllChunks_def map_values_def
      vectorStep_def)

lemma elevenCats_similar:
  "similarChunksOf oneChunkStore elevenCats =
     [\<lparr>chunk = \<lparr>chunk_id = ''c1'', documentId = ''d1'', chunkIndex = 0,
                  chunk_text = ''cat'', embedding = None\<rparr>,
       similarity = 11 / 10, documentName = ''a.pdf''\<rparr>]"
  by (simp add: similarChunksOf_def vectorStage_def elevenCats_textStage elevenCats_vector)

lemma elevenCats_context:
  "contextOf [\<lparr>chunk = \<lparr>chunk_id = ''c1'', documentId = ''d1'', chunkIndex = 0,
                  chunk_text = ''cat'', embedding = None\<rparr>,
       similarity = 11 / 10, documentName = ''a.pdf''\<rparr>] = ''[Source 1]: cat''"
proof -
  have d: "decimal (Suc 0) = ''1''" by code_simp
  show ?thesis by (simp add: contextOf_def join_def d)
qed

lemma elevenCats_answer:
  "extractInformationFromContext (\<lambda>source. None) ''[Source 1]: cat'' elevenCats
     = Inr ''[Source 1]: cat''"
  by code_simp

lemma elevenCats_query: "elevenCats \<noteq> [] \<and> trim elevenCats \<noteq> []"
  by code_simp

text \<open>
  C5. A query of eleven words, each found in the one stored chunk, scores 11 in stage 1;
  the division by 10 that should bring the score into the range from 0 to 1 gives 1.1,
  and the response carries that similarity.
\<close>

theorem similarity_above_one:
  "handleQuery (\<lambda>source. None) oneChunkStore elevenCats =
     Answer ''[Source 1]: cat''
       [\<lparr>docName = ''a.pdf'', src_chunkIndex = 0, src_text = ''cat'',
         src_similarity = 11 / 10, relevance = ''Very High''\<rparr>]
   \<and> \<not> (11 / 10 \<le> (1::real))"
proof -
  have t: "trim ''[Source 1]: cat'' \<noteq> []" by code_simp
  have "\<lfloor>(110::real) + 1 / 2\<rfloor> = 110" by (simp add: floor_eq_iff)
  then have r: "mathRound 110 = 110"
    by (simp add: mathRound_def)
  show ?thesis
    using elevenCats_query t
    by (simp add: handleQuery_def elevenCats_similar elevenCats_context elevenCats_answer
        formatSource_def r)
qed

section \<open>Chunking\<close>

text \<open>
  \<^verbatim>\<open>server/services/pdfService.ts\<close>. \<open>js_slice\<close> is \<^verbatim>\<open>String.prototype.slice\<close>
  (a negative index counts from the end), \<open>lastIndexOf\<close> and \<open>indexOf\<close> return -1
  when there is no occurrence, and \<open>nl\<close> is the line feed.
\<close>

definition nl :: char where
  "nl = CHR 0x0A"

definition js_slice :: "string \<Rightarrow> int \<Rightarrow> int \<Rightarrow> string" where
  "js_slice s a b =
     (let len = int (length s);
          from = (if a < 0 then max (len + a) 0 else min a len);
          to = (if b < 0 then max (len + b) 0 else min b len)
      in take (nat (to - from)) (drop (nat from) s))"

fun lastIndexOf :: "string \<Rightarrow> char \<Rightarrow> int" where
  "lastIndexOf [] x = -1"
| "lastIndexOf (c # s) x =
     (if lastIndexOf s x \<ge> 0 then lastIndexOf s x + 1 else if c = x then 0 else -1)"

fun indexOf :: "string \<Rightarrow> string \<Rightarrow> nat \<Rightarrow> int" where
  "indexOf [] w position = (if w = [] then 0 else -1)"
| "indexOf (c # s) w position =
     (if position = 0
      then (if startsWith (c # s) w then 0
            else (let i = indexOf s w 0 in if i < 0 then -1 else i + 1))
      else (let i = indexOf s w (position - 1) in if i < 0 then -1 else i + 1))"

text \<open>The cleaning patterns \<^verbatim>\<open>/\s+/g\<close> and \<^verbatim>\<open>/\n\s*\n/g\<close>.\<close>

definition rx_blank_lines :: rx where
  "rx_blank_lines = rxs [lit [nl], star cls_space, lit [nl]]"

definition cleanText :: "string \<Rightarrow> string" where
  "cleanText input =
     trim (js_replace_all False rx_blank_lines [nl] (js_replace_all False rx_ws_plus '' '' input))"

definition educationalKeywords :: "string list" where
  "educationalKeywords =
     [''Q:'', ''Question:'', ''Answer:'', ''Interview'', ''Guide'', ''Preparation'', ''JavaScript'',
      ''React'', ''Node'']"

definition isEducationalDocument :: "string \<Rightarrow> bool" where
  "isEducationalDocument t = list_ex (\<lambda>keyword. str_includes t keyword) educationalKeywords"

text \<open>
  \<^verbatim>\<open>splitSectionIntoChunks\<close>: a window of \<open>chunkSize\<close> characters slides over the
  section. \<open>windowStep\<close> is one round of the loop: the chunk it cuts and the next start.
  The break point is an index into the window, which the source compares with and cuts at
  as if it were an index into the section; the model does the same. The comparison with
  \<^verbatim>\<open>chunkSize * 0.6\<close> is made in the reals. The loop need not end for every
  \<open>chunkSize\<close> and \<open>overlap\<close>, so it is a partial function: \<open>None\<close> is a loop that
  never returns.
\<close>

definition pushChunk :: "string \<Rightarrow> string list \<Rightarrow> string list" where
  "pushChunk c chunks = (if length (trim c) > 0 then chunks @ [trim c] else chunks)"

definition windowStep :: "string \<Rightarrow> int \<Rightarrow> int \<Rightarrow> int \<Rightarrow> string \<times> int" where
  "windowStep section chunkSize overlap start =
     (let endIdx = min (start + chunkSize) (int (length section));
          c = js_slice section start endIdx
      in if endIdx < int (length section)
         then (let lastPeriod = lastIndexOf c CHR ''.'';
                   lastNewline = lastIndexOf c nl;
                   lastComma = lastIndexOf c CHR '','';
                   breakPoint = max (max lastPeriod lastNewline) lastComma
               in if real_of_int breakPoint > real_of_int start + real_of_int chunkSize * (6 / 10)
                  then (js_slice section start (breakPoint + 1), breakPoint + 1 - overlap)
                  else (c, endIdx - overlap))
         else (c, endIdx))"

partial_function (option) chunkLoop ::
  "string \<Rightarrow> int \<Rightarrow> int \<Rightarrow> int \<Rightarrow> string list \<Rightarrow> string list option" where
  "chunkLoop section chunkSize overlap start chunks =
     (if start < int (length section)
      then chunkLoop section chunkSize overlap
             (snd (windowStep section chunkSize overlap start))
             (pushChunk (fst (windowStep section chunkSize overlap start)) chunks)
      else Some chunks)"

declare chunkLoop.simps [code]

definition splitSectionIntoChunks :: "string \<Rightarrow> int \<Rightarrow> int \<Rightarrow> string list option" where
  "splitSectionIntoChunks section chunkSize overlap = chunkLoop section chunkSize overlap 0 []"

text \<open>
  \<^verbatim>\<open>splitIntoSections\<close>: the headers are looked up in the order of the list, each with
  \<^verbatim>\<open>new RegExp(`\\b${header}\\b`, 'gi')\<close>; the state of the loop is the sections so far,
  the current section and \<^verbatim>\<open>lastIndex\<close>.
\<close>

definition sectionHeaders :: "string list" where
  "sectionHeaders =
     [''Education'', ''Experience'', ''Work Experience'', ''Professional Experience'',
      ''Skills'', ''Technical Skills'', ''Projects'', ''Personal Projects'',
      ''Contact'', ''Contact Information'', ''About'', ''Summary'', ''Objective'',
      ''Certifications'', ''Languages'', ''Interests'', ''Hobbies'']"

definition rx_header :: "string \<Rightarrow> rx" where
  "rx_header header = rxs [WordB, lit header, WordB]"

definition headerStep :: "string \<Rightarrow> string list \<times> string \<times> nat \<Rightarrow> string \<Rightarrow> string list \<times> string \<times> nat" where
  "headerStep t st header =
     (case st of (sections, currentSection, lastIndex) \<Rightarrow>
        (case js_match_all True (rx_header header) t of
           [] \<Rightarrow> st
         | m # _ \<Rightarrow>
             (let headerIndex = indexOf t m lastIndex
              in if headerIndex > int lastIndex
                 then ((if trim currentSection \<noteq> [] then sections @ [trim currentSection]
                        else sections),
                       js_slice t (int lastIndex) headerIndex, nat headerIndex)
                 else st)))"

definition splitIntoSections :: "string \<Rightarrow> string list" where
  "splitIntoSections t =
     (case foldl (headerStep t) ([], [], 0) sectionHeaders of
        (sections, currentSection, lastIndex) \<Rightarrow>
          (let currentSection' = (if lastIndex < length t
                                  then currentSection @ js_slice t (int lastIndex) (int (length t))
                                  else currentSection);
               sections' = (if trim currentSection' \<noteq> [] then sections @ [trim currentSection']
                            else sections)
           in if length sections' = 1
              then filter (\<lambda>section. length (trim section) > 0) (js_split False rx_blank_lines t)
              else sections'))"

text \<open>The two question patterns of the educational path.\<close>

definition rx_question_marker :: rx where
  "rx_question_marker =
     Grp 1 (alts [rxs [lit ''Q'', plus cls_digit, lit '':''],
                  rxs [lit ''Question'', star cls_space, star cls_digit, lit '':''],
                  rxs [lit ''Q'', star cls_space, star cls_digit, lit '':'']])"

definition rx_question_inline :: rx where
  "rx_question_inline =
     rxs [Grp 1 (alts (map lit [''What is'', ''What are'', ''Define'', ''Explain''])),
          plus cls_space, plus (cls_not CHR ''?''), lit ''?'']"

text \<open>
  \<^verbatim>\<open>splitEducationalContent\<close>: the pieces of the split are paired two by two
  (\<^verbatim>\<open>i += 2\<close>); an odd last piece is left out.
\<close>

fun qaLoop :: "int \<Rightarrow> int \<Rightarrow> string list \<Rightarrow> string list \<Rightarrow> string list option" where
  "qaLoop chunkSize overlap (question # answer # rest) chunks =
     (if trim question \<noteq> [] \<and> trim answer \<noteq> []
      then (let qaPair = trim question @ [nl] @ trim answer
            in if int (length qaPair) \<le> chunkSize
               then qaLoop chunkSize overlap rest (chunks @ [qaPair])
               else (case splitSectionIntoChunks qaPair chunkSize overlap of
                       None \<Rightarrow> None
                     | Some qaChunks \<Rightarrow> qaLoop chunkSize overlap rest (chunks @ qaChunks)))
      else qaLoop chunkSize overlap rest chunks)"
| "qaLoop chunkSize overlap sections chunks = Some chunks"

definition splitEducationalContent :: "string \<Rightarrow> int \<Rightarrow> int \<Rightarrow> string list option" where
  "splitEducationalContent t chunkSize overlap =
     (case qaLoop chunkSize overlap (js_split True rx_question_marker t) [] of
        None \<Rightarrow> None
      | Some chunks1 \<Rightarrow>
          (case (if length chunks1 > 0 then Some chunks1
                 else qaLoop chunkSize overlap (js_split True rx_question_inline t) chunks1) of
             None \<Rightarrow> None
           | Some chunks \<Rightarrow>
               if length chunks = 0 then splitSectionIntoChunks t chunkSize overlap
               else Some (filter (\<lambda>c. length (trim c) > 0) chunks)))"

text \<open>\<^verbatim>\<open>splitTextIntoChunks\<close>, with the loop over the sections.\<close>

fun sectionsLoop :: "int \<Rightarrow> int \<Rightarrow> string list \<Rightarrow> string list \<Rightarrow> string list option" where
  "sectionsLoop chunkSize overlap [] chunks = Some chunks"
| "sectionsLoop chunkSize overlap (section # sections) chunks =
     (if int (length section) \<le> chunkSize
      then sectionsLoop chunkSize overlap sections (chunks @ [trim section])
      else (case splitSectionIntoChunks section chunkSize overlap of
              None \<Rightarrow> None
            | Some sectionChunks \<Rightarrow> sectionsLoop chunkSize overlap sections (chunks @ sectionChunks)))"

definition splitTextIntoChunks :: "string \<Rightarrow> int \<Rightarrow> int \<Rightarrow> string list option" where
  "splitTextIntoChunks input chunkSize overlap =
     (let cleanedText = cleanText input
      in if isEducationalDocument cleanedText
         then splitEducationalContent cleanedText chunkSize overlap
         else map_option (filter (\<lambda>c. length (trim c) > 0))
                (sectionsLoop chunkSize overlap (splitIntoSections cleanedText) []))"

subsection \<open>Trimming and blank text\<close>

text \<open>\<open>squash\<close> removes all white space: what a text says, whatever its layout.\<close>

definition squash :: "string \<Rightarrow> string" where
  "squash s = filter (\<lambda>c. \<not> isSpace c) s"

lemma squash_append: "squash (a @ b) = squash a @ squash b"
  by (simp add: squash_def)

lemma squash_dropWhile: "squash (dropWhile isSpace s) = squash s"
  by (induction s) (simp_all add: squash_def)

lemma squash_rev: "squash (rev s) = rev (squash s)"
  by (simp add: squash_def rev_filter)

lemma squash_trim: "squash (trim s) = squash s"
  by (simp add: trim_def squash_rev squash_dropWhile)

lemma squash_nonempty_iff: "squash s \<noteq> [] \<longleftrightarrow> (\<exists>c\<in>set s. \<not> isSpace c)"
  by (simp add: squash_def filter_empty_conv)

lemma trim_nonempty_iff: "trim s \<noteq> [] \<longleftrightarrow> (\<exists>c\<in>set s. \<not> isSpace c)"
proof
  assume "trim s \<noteq> []"
  then obtain c where "c \<in> set (trim s)" by (cases "trim s") auto
  show "\<exists>c\<in>set s. \<not> isSpace c"
  proof (rule ccontr)
    assume "\<not> (\<exists>c\<in>set s. \<not> isSpace c)"
    then have "dropWhile isSpace s = []" by (metis dropWhile_eq_Nil_conv)
    then have "trim s = []" by (auto simp: trim_def dest: set_dropWhileD)
    with \<open>trim s \<noteq> []\<close> show False by simp
  qed
next
  assume "\<exists>c\<in>set s. \<not> isSpace c"
  then have "squash (trim s) \<noteq> []" by (simp add: squash_trim squash_nonempty_iff)
  then show "trim s \<noteq> []" by (auto simp: squash_def)
qed

lemma trim_blank_iff: "trim s \<noteq> [] \<longleftrightarrow> squash s \<noteq> []"
  by (simp add: trim_nonempty_iff squash_nonempty_iff)

lemma dropWhile_fixed: "s = [] \<or> \<not> P (hd s) \<Longrightarrow> dropWhile P s = s"
  by (cases s) auto

lemma trim_trim: "trim (trim s) = trim s"
proof -
  define X where "X = dropWhile isSpace s"
  define Y where "Y = dropWhile isSpace (rev X)"
  have t: "trim s = rev Y" by (simp add: trim_def X_def Y_def)
  have y: "Y = [] \<or> \<not> isSpace (hd Y)"
    unfolding Y_def by (metis hd_dropWhile)
  have "rev Y = [] \<or> \<not> isSpace (hd (rev Y))"
  proof (cases "Y = []")
    case True
    then show ?thesis by simp
  next
    case False
    then have "rev X \<noteq> []" by (auto simp: Y_def)
    then have "X \<noteq> []" by simp
    then have "\<not> isSpace (hd X)" unfolding X_def by (metis hd_dropWhile)
    moreover have "last Y = last (rev X)"
      using False unfolding Y_def
      by (metis takeWhile_dropWhile_id last_appendR)
    moreover have "last (rev X) = hd X" using \<open>X \<noteq> []\<close> by (simp add: last_rev)
    moreover have "hd (rev Y) = last Y" using False by (simp add: hd_rev)
    ultimately show ?thesis by simp
  qed
  then have a: "dropWhile isSpace (rev Y) = rev Y" by (rule dropWhile_fixed)
  have b: "dropWhile isSpace Y = Y" using y by (rule dropWhile_fixed)
  have "trim (rev Y) = rev (dropWhile isSpace (rev (dropWhile isSpace (rev Y))))"
    by (simp add: trim_def)
  also have "\<dots> = rev (dropWhile isSpace (rev (rev Y)))" by (simp only: a)
  also have "\<dots> = rev Y" by (simp only: rev_rev_ident b)
  finally show ?thesis by (simp only: t)
qed

lemma trim_of_trim_nonempty: "trim c \<noteq> [] \<Longrightarrow> trim (trim c) \<noteq> []"
  by (simp add: trim_trim)

subsection \<open>The window loop returns\<close>

lemma js_slice_nonneg:
  "0 \<le> a \<Longrightarrow> 0 \<le> b \<Longrightarrow> js_slice s a b = take (nat b - nat a) (drop (nat a) s)"
  by (auto simp: js_slice_def Let_def min_def nat_diff_distrib')

lemma lastIndexOf_bounds: "- 1 \<le> lastIndexOf s x \<and> lastIndexOf s x < int (length s)"
  by (induction s) auto

lemma nth_in_slice:
  assumes "0 \<le> a" "a \<le> int i" "int i < b" "i < length s"
  shows "s ! i \<in> set (js_slice s a b)"
proof -
  have b: "0 \<le> b" using assms by simp
  have "s ! i = (drop (nat a) s) ! (i - nat a)" using assms by simp
  moreover have "i - nat a < length (take (nat b - nat a) (drop (nat a) s))"
    using assms by auto
  ultimately have "s ! i = (take (nat b - nat a) (drop (nat a) s)) ! (i - nat a)"
    using assms by simp
  then show ?thesis
    unfolding js_slice_nonneg [OF assms(1) b]
    using \<open>i - nat a < length (take (nat b - nat a) (drop (nat a) s))\<close> nth_mem by metis
qed

text \<open>
  The loop returns whenever the overlap is at most 0.6 of the chunk size: every round
  moves the start forward. \<open>windowsOk\<close> describes the windows it cuts: they start at
  increasing positions, none is blank, and no character that is not white space is left
  uncovered.
\<close>

definition paramsOk :: "int \<Rightarrow> int \<Rightarrow> bool" where
  "paramsOk chunkSize overlap = (0 < chunkSize \<and> 0 \<le> overlap \<and> 5 * overlap \<le> 3 * chunkSize)"

lemma windowStep_props:
  assumes "paramsOk cs ov" "0 \<le> start" "start < int (length sec)"
  shows "\<exists>e. fst (windowStep sec cs ov start) = js_slice sec start e
             \<and> start < e \<and> e \<le> int (length sec)
             \<and> snd (windowStep sec cs ov start) \<le> e
             \<and> start < snd (windowStep sec cs ov start)"
proof -
  define endIdx where "endIdx = min (start + cs) (int (length sec))"
  define c where "c = js_slice sec start endIdx"
  define bp where "bp = max (max (lastIndexOf c CHR ''.'') (lastIndexOf c nl)) (lastIndexOf c CHR '','')"
  have p: "0 < cs" "0 \<le> ov" "5 * ov \<le> 3 * cs" using assms(1) by (simp_all add: paramsOk_def)
  have e1: "start < endIdx" "endIdx \<le> int (length sec)"
    using p assms by (simp_all add: endIdx_def)
  show ?thesis
  proof (cases "endIdx < int (length sec)")
    case False
    then have "windowStep sec cs ov start = (c, endIdx)"
      by (simp add: windowStep_def Let_def endIdx_def c_def)
    with e1 show ?thesis by (auto simp: c_def)
  next
    case True
    then have en: "endIdx = start + cs" by (simp add: endIdx_def min_def split: if_splits)
    have lt0: "start + cs < int (length sec)" using True en by simp
    have w0: "windowStep sec cs ov start =
        (if real_of_int bp > real_of_int start + real_of_int cs * (6 / 10)
         then (js_slice sec start (bp + 1), bp + 1 - ov) else (c, endIdx - ov))"
      using lt0 by (simp add: windowStep_def Let_def bp_def c_def endIdx_def min_def)
    have clen: "int (length c) = cs"
      using True en assms p e1 unfolding c_def
      by (simp add: js_slice_nonneg)
    have bpb: "bp < cs"
      using lastIndexOf_bounds [of c "CHR ''.''"] lastIndexOf_bounds [of c nl]
        lastIndexOf_bounds [of c "CHR '',''"] clen
      by (simp add: bp_def)
    show ?thesis
    proof (cases "real_of_int bp > real_of_int start + real_of_int cs * (6 / 10)")
      case yes: True
      then have w: "windowStep sec cs ov start = (js_slice sec start (bp + 1), bp + 1 - ov)"
        by (simp only: w0 if_True)
      have "real_of_int ov \<le> real_of_int cs * (6 / 10)"
      proof -
        have "real_of_int (5 * ov) \<le> real_of_int (3 * cs)" using p(3) by (rule of_int_le_iff [THEN iffD2])
        then show ?thesis by simp
      qed
      with yes have "real_of_int bp > real_of_int start + real_of_int ov" by simp
      then have "real_of_int bp > real_of_int (start + ov)" by simp
      then have g: "bp > start + ov" by (simp only: of_int_less_iff)
      have "bp + 1 \<le> int (length sec)" using bpb True en assms(2) by simp
      with g p w show ?thesis by auto
    next
      case no: False
      then have w: "windowStep sec cs ov start = (c, endIdx - ov)"
        by (simp only: w0 if_False)
      have "start < endIdx - ov" using en p by simp
      with w e1 p show ?thesis by (auto simp: c_def)
    qed
  qed
qed

definition windowsOk :: "string \<Rightarrow> int \<Rightarrow> (int \<times> int) list \<Rightarrow> bool" where
  "windowsOk sec start ws =
     ((\<forall>w\<in>set ws. start \<le> fst w \<and> fst w < snd w \<and> snd w \<le> int (length sec)
                   \<and> trim (js_slice sec (fst w) (snd w)) \<noteq> [])
      \<and> sorted (map fst ws)
      \<and> ((\<exists>i. start \<le> int i \<and> i < length sec \<and> \<not> isSpace (sec ! i)) \<longrightarrow> ws \<noteq> []))"

lemma chunkLoop_total:
  assumes "paramsOk cs ov" "0 \<le> start"
  shows "\<exists>ws. chunkLoop sec cs ov start chunks
               = Some (chunks @ map (\<lambda>w. trim (js_slice sec (fst w) (snd w))) ws)
            \<and> windowsOk sec start ws"
  using assms(2)
proof (induction "nat (int (length sec) - start)" arbitrary: start chunks rule: less_induct)
  case less
  show ?case
  proof (cases "start < int (length sec)")
    case False
    have "chunkLoop sec cs ov start chunks = Some chunks"
      using False by (subst chunkLoop.simps) simp
    moreover have "windowsOk sec start []" using False by (auto simp: windowsOk_def)
    ultimately show ?thesis by (intro exI [of _ "[]"]) simp
  next
    case True
    from windowStep_props [OF assms(1) less.prems True]
    obtain e where e: "fst (windowStep sec cs ov start) = js_slice sec start e"
      "start < e" "e \<le> int (length sec)" "snd (windowStep sec cs ov start) \<le> e"
      "start < snd (windowStep sec cs ov start)" by blast
    define start' where "start' = snd (windowStep sec cs ov start)"
    define c where "c = js_slice sec start e"
    have unf: "chunkLoop sec cs ov start chunks = chunkLoop sec cs ov start' (pushChunk c chunks)"
      using True by (subst chunkLoop.simps) (simp add: start'_def c_def e(1))
    have m: "nat (int (length sec) - start') < nat (int (length sec) - start)"
      using e(5) True by (simp add: start'_def)
    have s0: "0 \<le> start'" using e(5) less.prems by (simp add: start'_def)
    from less.hyps [OF m s0, of "pushChunk c chunks"]
    obtain ws where ws: "chunkLoop sec cs ov start' (pushChunk c chunks)
        = Some (pushChunk c chunks @ map (\<lambda>w. trim (js_slice sec (fst w) (snd w))) ws)"
      "windowsOk sec start' ws" by blast
    have lt: "start < start'" using e(5) by (simp add: start'_def)
    have le: "start' \<le> e" using e(4) by (simp add: start'_def)
    have ok': "\<forall>w\<in>set ws. start \<le> fst w \<and> fst w < snd w \<and> snd w \<le> int (length sec)
                   \<and> trim (js_slice sec (fst w) (snd w)) \<noteq> []"
      using ws(2) lt by (auto simp: windowsOk_def)
    have srt: "sorted (map fst ws)" using ws(2) by (simp add: windowsOk_def)
    show ?thesis
    proof (cases "trim c = []")
      case blank: True
      have cov: "ws \<noteq> []" if "start \<le> int i" "i < length sec" "\<not> isSpace (sec ! i)" for i
      proof -
        have "\<not> int i < e"
        proof
          assume "int i < e"
          from nth_in_slice [OF less.prems that(1) this that(2)] that(3)
          have "\<exists>x\<in>set c. \<not> isSpace x" by (auto simp: c_def)
          then show False using blank by (simp add: trim_nonempty_iff [symmetric])
        qed
        then have "start' \<le> int i" using le by simp
        with ws(2) that show ?thesis by (auto simp: windowsOk_def)
      qed
      have "windowsOk sec start ws"
        using ok' srt cov by (auto simp: windowsOk_def)
      moreover have "chunkLoop sec cs ov start chunks
          = Some (chunks @ map (\<lambda>w. trim (js_slice sec (fst w) (snd w))) ws)"
        using unf ws(1) blank by (simp add: pushChunk_def)
      ultimately show ?thesis by blast
    next
      case nonblank: False
      have "windowsOk sec start ((start, e) # ws)"
        using ok' srt e(2,3) nonblank ws(2) lt
        by (auto simp: windowsOk_def c_def)
      moreover have "chunkLoop sec cs ov start chunks
          = Some (chunks @ map (\<lambda>w. trim (js_slice sec (fst w) (snd w))) ((start, e) # ws))"
        using unf ws(1) nonblank by (simp add: pushChunk_def c_def)
      ultimately show ?thesis by blast
    qed
  qed
qed

subsection \<open>Cleaning\<close>

lemma rxm_ws_plus_fail:
  "\<not> isSpace c \<Longrightarrow> rxm False rx_ws_plus (p, c # s, cs) = []"
  by (simp add: rx_ws_plus_def inClass_def)

lemma rxm_ws_plus_end: "rxm False rx_ws_plus (p, [], cs) = []"
  by (simp add: rx_ws_plus_def)

lemma atom_space: "atomMatches False (In isSpace) = isSpace"
  by (rule ext) (simp add: inClass_def)

lemma rxm_ws_plus_match:
  assumes "isSpace c"
  shows "\<exists>p' rest. rxm False rx_ws_plus (p, c # s, cs)
           = (p', drop (Suc (length (takeWhile isSpace s))) (c # s), cs) # rest"
proof -
  define n where "n = length (takeWhile isSpace s)"
  have N: "length (takeWhile (atomMatches False (In isSpace)) (c # s)) = Suc n"
    using assms by (simp add: atom_space n_def)
  have "rxm False rx_ws_plus (p, c # s, cs)
        = map (\<lambda>k. (lastOr p (take k (c # s)), drop k (c # s), cs)) (rev [1..<Suc (Suc n)])"
    unfolding rx_ws_plus_def
    by (simp only: rxm.simps prod.case Let_def N option.case if_True)
  also have "rev [1..<Suc (Suc n)] = Suc n # rev [1..<Suc n]" by simp
  finally show ?thesis
    unfolding n_def [symmetric] by (simp only: list.map) blast
qed

definition render :: "string \<Rightarrow> (string + string) list \<Rightarrow> string" where
  "render w pieces = concat (map (\<lambda>x. case x of Inl u \<Rightarrow> u | Inr _ \<Rightarrow> w) pieces)"

lemma render_simps:
  "render w [] = []"
  "render w (Inl u # xs) = u @ render w xs"
  "render w (Inr m # xs) = w @ render w xs"
  by (simp_all add: render_def)

lemma js_replace_all_render: "js_replace_all icase r w s = render w (rx_scan icase r None s 0)"
  by (simp add: js_replace_all_def render_def)

lemma space_is_space: "isSpace CHR '' ''"
  by (simp add: isSpace_def charCode_def)

lemma squash_simps:
  "squash [] = []"
  "squash (c # s) = (if isSpace c then squash s else c # squash s)"
  by (simp_all add: squash_def)

lemma scan_ws_plus:
  assumes "\<forall>c\<in>set (take skip s). isSpace c"
  shows "squash (render '' '' (rx_scan False rx_ws_plus p s skip)) = squash s
         \<and> (\<forall>c\<in>set (render '' '' (rx_scan False rx_ws_plus p s skip)). isSpace c \<longrightarrow> c = CHR '' '')"
  using assms
proof (induction s arbitrary: p skip)
  case Nil
  show ?case by (simp add: rxm_ws_plus_end render_simps squash_simps)
next
  case (Cons c s)
  show ?case
  proof (cases "skip > 0")
    case True
    then obtain k where k: "skip = Suc k" by (cases skip) auto
    with Cons.prems have c: "isSpace c" and r: "\<forall>c\<in>set (take k s). isSpace c" by simp_all
    have sc: "rx_scan False rx_ws_plus p (c # s) skip = rx_scan False rx_ws_plus (Some c) s k"
      by (simp add: k)
    from Cons.IH [OF r, of "Some c"] c show ?thesis
      unfolding sc by (simp add: squash_simps)
  next
    case False
    then have z: "skip = 0" by simp
    have t0: "\<forall>c\<in>set (take 0 s). isSpace c" by simp
    show ?thesis
    proof (cases "isSpace c")
      case ns: False
      have sc: "rx_scan False rx_ws_plus p (c # s) skip
                = Inl [c] # rx_scan False rx_ws_plus (Some c) s 0"
        using ns by (simp add: z rxm_ws_plus_fail)
      from Cons.IH [OF t0, of "Some c"] ns show ?thesis
        unfolding sc by (simp add: render_simps squash_simps)
    next
      case sp: True
      define n where "n = length (takeWhile isSpace s)"
      from rxm_ws_plus_match [OF sp, of p s "[]"]
      obtain p' rest where m: "rxm False rx_ws_plus (p, c # s, [])
           = (p', drop (Suc n) (c # s), []) # rest" by (auto simp: n_def)
      have nl: "n \<le> length s" by (simp add: n_def length_takeWhile_le)
      have len: "length (c # s) - length (drop (Suc n) (c # s)) = Suc n" using nl by simp
      have t: "\<forall>c\<in>set (take n s). isSpace c"
        unfolding n_def by (metis set_takeWhileD takeWhile_eq_take)
      have "rx_scan False rx_ws_plus p (c # s) 0
          = (let len = length (c # s) - length (drop (Suc n) (c # s))
             in if len = 0 then Inr [] # Inl [c] # rx_scan False rx_ws_plus (Some c) s 0
                else Inr (take len (c # s)) # rx_scan False rx_ws_plus (Some c) s (len - 1))"
        by (simp only: rx_scan.simps m list.case prod.case) simp
      then have sc: "rx_scan False rx_ws_plus p (c # s) skip
                = Inr (take (Suc n) (c # s)) # rx_scan False rx_ws_plus (Some c) s n"
        unfolding len z by (simp add: Let_def)
      from Cons.IH [OF t, of "Some c"] sp show ?thesis
        unfolding sc by (simp add: render_simps squash_simps space_is_space)
    qed
  qed
qed

lemma replace_ws_plus:
  "squash (js_replace_all False rx_ws_plus '' '' s) = squash s"
  "c \<in> set (js_replace_all False rx_ws_plus '' '' s) \<Longrightarrow> c \<noteq> nl"
proof -
  have t: "\<forall>c\<in>set (take 0 s). isSpace c" by simp
  from scan_ws_plus [OF t, of None]
  show "squash (js_replace_all False rx_ws_plus '' '' s) = squash s"
    by (simp add: js_replace_all_render)
  have "isSpace nl" "nl \<noteq> CHR '' ''" by (simp_all add: isSpace_def nl_def charCode_def)
  with scan_ws_plus [OF t, of None]
  show "c \<in> set (js_replace_all False rx_ws_plus '' '' s) \<Longrightarrow> c \<noteq> nl"
    by (auto simp: js_replace_all_render)
qed

lemma rxm_blank_lines_fail:
  "c \<noteq> nl \<Longrightarrow> rxm False rx_blank_lines (p, c # s, cs) = []"
  "rxm False rx_blank_lines (p, [], cs) = []"
  by (simp_all add: rx_blank_lines_def rxs_def lit_def inClass_def)

lemma scan_blank_lines:
  "nl \<notin> set s \<Longrightarrow> render w (rx_scan False rx_blank_lines p s 0) = s"
  by (induction s arbitrary: p) (auto simp: rxm_blank_lines_fail render_simps)

lemma replace_blank_lines: "nl \<notin> set s \<Longrightarrow> js_replace_all False rx_blank_lines w s = s"
  by (simp add: js_replace_all_render scan_blank_lines)

lemma split_go_blank_lines:
  "nl \<notin> set s \<Longrightarrow> split_go False rx_blank_lines p s acc 0 = [rev acc @ s]"
  by (induction s arbitrary: p acc) (auto simp: rxm_blank_lines_fail)

lemma split_blank_lines: "nl \<notin> set s \<Longrightarrow> js_split False rx_blank_lines s = [s]"
  by (simp add: js_split_def split_go_blank_lines rxm_blank_lines_fail)

lemma set_trim: "set (trim s) \<subseteq> set s"
  unfolding trim_def by (metis set_dropWhileD set_rev subsetI)

lemma cleanText_props:
  "squash (cleanText t) = squash t"
  "nl \<notin> set (cleanText t)"
  "trim (cleanText t) = cleanText t"
proof -
  define u where "u = js_replace_all False rx_ws_plus '' '' t"
  have n: "nl \<notin> set u" using replace_ws_plus(2) [of nl t] by (auto simp: u_def)
  then have c: "cleanText t = trim u"
    by (simp add: cleanText_def u_def [symmetric] replace_blank_lines)
  show "squash (cleanText t) = squash t"
    by (simp add: c squash_trim u_def replace_ws_plus(1))
  show "nl \<notin> set (cleanText t)" using n set_trim [of u] by (auto simp: c)
  show "trim (cleanText t) = cleanText t" by (simp add: c trim_trim)
qed

lemma trimmed_ends:
  assumes "trim s = s" "s \<noteq> []"
  shows "\<not> isSpace (hd s)" "\<not> isSpace (last s)"
proof -
  define X where "X = dropWhile isSpace s"
  define Y where "Y = dropWhile isSpace (rev X)"
  have t: "s = rev Y" using assms(1) by (simp add: trim_def X_def Y_def)
  with assms(2) have "Y \<noteq> []" by simp
  then have "\<not> isSpace (hd Y)" unfolding Y_def by (metis hd_dropWhile)
  then show "\<not> isSpace (last s)" using \<open>Y \<noteq> []\<close> by (simp add: t last_rev)
  have "X \<noteq> []" using \<open>Y \<noteq> []\<close> by (auto simp: Y_def)
  then have "\<not> isSpace (hd X)" unfolding X_def by (metis hd_dropWhile)
  moreover have "last Y = last (rev X)"
    using \<open>Y \<noteq> []\<close> unfolding Y_def by (metis takeWhile_dropWhile_id last_appendR)
  ultimately show "\<not> isSpace (hd s)"
    using \<open>Y \<noteq> []\<close> \<open>X \<noteq> []\<close> by (simp add: t hd_rev last_rev)
qed

subsection \<open>Order\<close>

text \<open>
  Left-to-right order: there are positions, one per chunk and never decreasing, at which
  the chunks occur in the source text, white space apart.
\<close>

definition infix_at :: "string \<Rightarrow> nat \<Rightarrow> string \<Rightarrow> bool" where
  "infix_at d off w = (take (length w) (drop off d) = w)"

definition leftToRight :: "string \<Rightarrow> string list \<Rightarrow> bool" where
  "leftToRight doc chunks =
     (\<exists>offs. length offs = length chunks \<and> sorted offs
             \<and> list_all2 (\<lambda>off c. infix_at (squash doc) off (squash c)) offs chunks)"

definition placed :: "string \<Rightarrow> nat \<Rightarrow> nat \<Rightarrow> string list \<Rightarrow> bool" where
  "placed d lo hi chunks =
     (\<exists>offs. length offs = length chunks \<and> sorted offs \<and> (\<forall>x\<in>set offs. lo \<le> x \<and> x \<le> hi)
             \<and> list_all2 (\<lambda>off c. infix_at d off (squash c)) offs chunks)"

lemma placed_Nil: "placed d lo hi []"
  by (simp add: placed_def)

lemma placed_single: "infix_at d off (squash c) \<Longrightarrow> lo \<le> off \<Longrightarrow> off \<le> hi \<Longrightarrow> placed d lo hi [c]"
  unfolding placed_def by (intro exI [of _ "[off]"]) simp

lemma placed_append:
  assumes "placed d lo mid xs" "placed d mid hi ys" "lo \<le> mid" "mid \<le> hi"
  shows "placed d lo hi (xs @ ys)"
proof -
  from assms(1) obtain o1 where o1: "length o1 = length xs" "sorted o1"
    "\<forall>x\<in>set o1. lo \<le> x \<and> x \<le> mid" "list_all2 (\<lambda>off c. infix_at d off (squash c)) o1 xs"
    unfolding placed_def by blast
  from assms(2) obtain o2 where o2: "length o2 = length ys" "sorted o2"
    "\<forall>x\<in>set o2. mid \<le> x \<and> x \<le> hi" "list_all2 (\<lambda>off c. infix_at d off (squash c)) o2 ys"
    unfolding placed_def by blast
  have "sorted (o1 @ o2)" using o1(2,3) o2(2,3) by (fastforce simp: sorted_append)
  moreover have "\<forall>x\<in>set (o1 @ o2). lo \<le> x \<and> x \<le> hi"
    using o1(3) o2(3) assms(3,4) by fastforce
  moreover have "list_all2 (\<lambda>off c. infix_at d off (squash c)) (o1 @ o2) (xs @ ys)"
    using o1(4) o2(4) by (rule list_all2_appendI)
  ultimately show ?thesis
    unfolding placed_def using o1(1) o2(1) by (intro exI [of _ "o1 @ o2"]) simp
qed

lemma placed_widen:
  assumes "placed d lo hi xs" "lo' \<le> lo" "hi \<le> hi'"
  shows "placed d lo' hi' xs"
  using assms unfolding placed_def by (meson order_trans)

lemma infix_at_inner:
  assumes "infix_at d off0 sd" "infix_at sd x w"
  shows "infix_at d (off0 + x) w"
proof -
  have w: "take (length w) (drop x sd) = w" using assms(2) by (simp add: infix_at_def)
  have sd: "sd = take (length sd) (drop off0 d)" using assms(1) by (simp add: infix_at_def)
  have "length w = length (take (length w) (drop x sd))" using w by simp
  then have le: "length w \<le> length sd - x" by simp
  have "drop x sd = take (length sd - x) (drop (off0 + x) d)"
    by (subst sd) (simp add: drop_take add.commute)
  then have "take (length w) (drop x sd) = take (length w) (drop (off0 + x) d)"
    using le by (simp add: min_def)
  with w show ?thesis by (simp add: infix_at_def)
qed

lemma placed_inner:
  assumes "infix_at d off0 sd" "placed sd lo hi xs"
  shows "placed d (off0 + lo) (off0 + hi) xs"
proof -
  from assms(2) obtain offs where o: "length offs = length xs" "sorted offs"
    "\<forall>x\<in>set offs. lo \<le> x \<and> x \<le> hi" "list_all2 (\<lambda>off c. infix_at sd off (squash c)) offs xs"
    unfolding placed_def by blast
  let ?offs = "map (\<lambda>x. off0 + x) offs"
  have "sorted ?offs" using o(2) by (simp add: sorted_map sorted_wrt_iff_nth_less)
  moreover have "\<forall>x\<in>set ?offs. off0 + lo \<le> x \<and> x \<le> off0 + hi" using o(3) by auto
  moreover have "list_all2 (\<lambda>off c. infix_at d off (squash c)) ?offs xs"
    using o(4) infix_at_inner [OF assms(1)]
    by (simp add: list_all2_map1) (erule list_all2_mono, simp)
  ultimately show ?thesis
    unfolding placed_def using o(1) by (intro exI [of _ ?offs]) simp
qed

lemma placed_leftToRight: "placed (squash doc) lo hi xs \<Longrightarrow> leftToRight doc xs"
  unfolding placed_def leftToRight_def by blast

definition sqoff :: "string \<Rightarrow> nat \<Rightarrow> nat" where
  "sqoff s n = length (squash (take n s))"

lemma sqoff_mono: "a \<le> b \<Longrightarrow> sqoff s a \<le> sqoff s b"
proof -
  assume "a \<le> b"
  then have "take b s = take a s @ take (b - a) (drop a s)"
    by (metis le_add_diff_inverse take_add)
  then show ?thesis by (simp add: sqoff_def squash_append)
qed

lemma sqoff_le: "sqoff s a \<le> length (squash s)"
proof -
  have "s = take a s @ drop a s" by simp
  then have "squash s = squash (take a s) @ squash (drop a s)" by (metis squash_append)
  then show ?thesis by (simp add: sqoff_def)
qed

lemma sqoff_all: "length s \<le> n \<Longrightarrow> sqoff s n = length (squash s)"
  by (simp add: sqoff_def)

lemma infix_at_append: "infix_at (a @ w @ b) (length a) w"
  by (simp add: infix_at_def)

lemma infix_at_segment: "infix_at (squash s) (sqoff s a) (squash (take n (drop a s)))"
proof -
  have "s = take a s @ (take n (drop a s) @ drop n (drop a s))"
    by (simp only: append_take_drop_id)
  then have "squash s = squash (take a s) @ squash (take n (drop a s)) @ squash (drop n (drop a s))"
    by (metis squash_append)
  then show ?thesis unfolding sqoff_def by (metis infix_at_append)
qed

lemma sqoff_segment: "sqoff s a + length (squash (take n (drop a s))) = sqoff s (a + n)"
proof -
  have "take (a + n) s = take a s @ take n (drop a s)" by (simp add: take_add)
  then show ?thesis by (simp add: sqoff_def squash_append)
qed

lemma infix_at_slice:
  assumes "0 \<le> a" "0 \<le> b"
  shows "infix_at (squash s) (sqoff s (nat a)) (squash (trim (js_slice s a b)))"
  unfolding js_slice_nonneg [OF assms] squash_trim by (rule infix_at_segment)

lemma windows_placed:
  assumes "sorted (map fst ws)" "\<forall>w\<in>set ws. 0 \<le> fst w \<and> 0 \<le> snd w"
  shows "placed (squash sec) 0 (length (squash sec))
           (map (\<lambda>w. trim (js_slice sec (fst w) (snd w))) ws)"
proof -
  let ?offs = "map (\<lambda>w. sqoff sec (nat (fst w))) ws"
  have "sorted ?offs"
    using assms(1) by (induction ws) (auto intro!: sqoff_mono nat_mono)
  moreover have "\<forall>x\<in>set ?offs. 0 \<le> x \<and> x \<le> length (squash sec)" by (auto simp: sqoff_le)
  moreover have "list_all2 (\<lambda>off c. infix_at (squash sec) off (squash c)) ?offs
                   (map (\<lambda>w. trim (js_slice sec (fst w) (snd w))) ws)"
    using assms(2) by (simp add: list_all2_map1 list_all2_map2 list_all2_same infix_at_slice)
  ultimately show ?thesis
    unfolding placed_def by (intro exI [of _ ?offs]) simp
qed

subsection \<open>One section\<close>

lemma splitSection_total:
  assumes "paramsOk cs ov"
  shows "\<exists>new. splitSectionIntoChunks sec cs ov = Some new
            \<and> (\<forall>c\<in>set new. trim c \<noteq> [])
            \<and> placed (squash sec) 0 (length (squash sec)) new
            \<and> (squash sec \<noteq> [] \<longrightarrow> new \<noteq> [])"
proof -
  from chunkLoop_total [OF assms, of 0 sec "[]"]
  obtain ws where ws: "chunkLoop sec cs ov 0 [] = Some (map (\<lambda>w. trim (js_slice sec (fst w) (snd w))) ws)"
    "windowsOk sec 0 ws" by auto
  let ?new = "map (\<lambda>w. trim (js_slice sec (fst w) (snd w))) ws"
  have a: "\<forall>c\<in>set ?new. trim c \<noteq> []"
    using ws(2) by (auto simp: windowsOk_def trim_trim)
  have "\<forall>w\<in>set ws. 0 \<le> fst w \<and> 0 \<le> snd w"
    using ws(2) by (fastforce simp: windowsOk_def)
  moreover have "sorted (map fst ws)" using ws(2) by (simp add: windowsOk_def)
  ultimately have b: "placed (squash sec) 0 (length (squash sec)) ?new"
    by (intro windows_placed) auto
  have c: "?new \<noteq> []" if "squash sec \<noteq> []"
  proof -
    from that obtain x where "x \<in> set sec" "\<not> isSpace x"
      by (auto simp: squash_nonempty_iff)
    then obtain i where "i < length sec" "\<not> isSpace (sec ! i)"
      by (auto simp: in_set_conv_nth)
    then have "\<exists>i. 0 \<le> int i \<and> i < length sec \<and> \<not> isSpace (sec ! i)" by auto
    with ws(2) show ?thesis by (simp add: windowsOk_def)
  qed
  show ?thesis
    using ws(1) a b c by (auto simp: splitSectionIntoChunks_def)
qed

subsection \<open>Sections\<close>

lemma indexOf_nonempty: "w \<noteq> [] \<Longrightarrow> indexOf s w pos < int (length s)"
proof (induction s arbitrary: pos)
  case Nil
  then show ?case by simp
next
  case (Cons c s)
  from Cons.IH [OF Cons.prems, of 0] Cons.IH [OF Cons.prems, of "pos - 1"]
  show ?case by (auto simp: Let_def)
qed

lemma indexOf_empty: "indexOf s [] pos \<le> int pos"
proof (induction s arbitrary: pos)
  case Nil
  then show ?case by simp
next
  case (Cons c s)
  from Cons.IH [of "pos - 1"] show ?case by (auto simp: Let_def)
qed

lemma indexOf_beyond:
  assumes "int pos < indexOf s w pos"
  shows "indexOf s w pos < int (length s)"
proof (cases "w = []")
  case True
  with assms indexOf_empty [of s pos] show ?thesis by simp
next
  case False
  then show ?thesis by (rule indexOf_nonempty)
qed

definition flat :: "(int \<times> int) list \<Rightarrow> int list" where
  "flat bounds = concat (map (\<lambda>w. [fst w, snd w]) bounds)"

definition okBounds :: "string \<Rightarrow> int \<Rightarrow> (int \<times> int) list \<Rightarrow> int \<Rightarrow> bool" where
  "okBounds t lo bounds hi =
     (sorted (lo # flat bounds @ [hi])
      \<and> (\<forall>w\<in>set bounds. trim (js_slice t (fst w) (snd w)) \<noteq> []))"

definition sliceTrim :: "string \<Rightarrow> int \<times> int \<Rightarrow> string" where
  "sliceTrim t w = trim (js_slice t (fst w) (snd w))"

lemma okBounds_snoc:
  assumes "okBounds t lo bounds c0" "c0 \<le> li" "trim (js_slice t c0 li) \<noteq> []"
  shows "okBounds t lo (bounds @ [(c0, li)]) li"
proof -
  have s: "sorted (lo # flat bounds @ [c0])" using assms(1) by (simp add: okBounds_def)
  from s have "\<forall>x\<in>set (lo # flat bounds). x \<le> c0"
    by (simp add: sorted_append)
  then have "\<forall>x\<in>set (lo # flat bounds @ [c0]). x \<le> li" using assms(2) by auto
  then have "sorted ((lo # flat bounds @ [c0]) @ [li, li])"
    unfolding sorted_append using s by simp
  then have "sorted (lo # flat (bounds @ [(c0, li)]) @ [li])"
    by (simp add: flat_def)
  then show ?thesis using assms(1,3) by (auto simp: okBounds_def)
qed

lemma okBounds_extend:
  assumes "okBounds t lo bounds c0" "c0 \<le> li"
  shows "okBounds t lo bounds li"
proof -
  have s: "sorted (lo # flat bounds @ [c0])" using assms(1) by (simp add: okBounds_def)
  from s have "\<forall>x\<in>set (lo # flat bounds). x \<le> c0" "sorted (lo # flat bounds)"
    by (simp_all add: sorted_append)
  then have "sorted ((lo # flat bounds) @ [li])"
    unfolding sorted_append using assms(2) by fastforce
  then show ?thesis using assms(1) by (auto simp: okBounds_def)
qed

definition secInv :: "string \<Rightarrow> string list \<times> string \<times> nat \<Rightarrow> bool" where
  "secInv t st =
     (case st of (sections, currentSection, lastIndex) \<Rightarrow>
        \<exists>bounds c0. sections = map (sliceTrim t) bounds
          \<and> okBounds t 0 bounds (int c0)
          \<and> currentSection = js_slice t (int c0) (int lastIndex)
          \<and> c0 \<le> lastIndex \<and> lastIndex \<le> length t
          \<and> (t \<noteq> [] \<longrightarrow> lastIndex < length t))"

lemma headerStep_inv:
  assumes "secInv t st"
  shows "secInv t (headerStep t st header)"
proof -
  obtain sections cur li where st: "st = (sections, cur, li)" by (cases st) auto
  from assms obtain bounds c0 where inv: "sections = map (sliceTrim t) bounds"
    "okBounds t 0 bounds (int c0)" "cur = js_slice t (int c0) (int li)"
    "c0 \<le> li" "li \<le> length t" "t \<noteq> [] \<longrightarrow> li < length t"
    unfolding secInv_def st by auto
  show ?thesis
  proof (cases "js_match_all True (rx_header header) t")
    case Nil
    then show ?thesis using assms by (simp add: headerStep_def st)
  next
    case (Cons m ms)
    define h where "h = indexOf t m li"
    show ?thesis
    proof (cases "h > int li")
      case False
      then show ?thesis using assms Cons by (simp add: headerStep_def st h_def Let_def)
    next
      case True
      then have hl: "h < int (length t)" unfolding h_def by (rule indexOf_beyond)
      have step: "headerStep t st header =
          ((if trim cur \<noteq> [] then sections @ [trim cur] else sections),
           js_slice t (int li) h, nat h)"
        using True Cons by (simp add: headerStep_def st h_def Let_def)
      have h0: "int (nat h) = h" using True by simp
      have h1: "li \<le> nat h" "nat h \<le> length t" "nat h < length t" using True hl by linarith+
      have ok': "okBounds t 0 (if trim cur \<noteq> [] then bounds @ [(int c0, int li)] else bounds) (int li)"
        using okBounds_snoc [OF inv(2), of "int li"] okBounds_extend [OF inv(2), of "int li"]
          inv(3,4) by auto
      have secs: "(if trim cur \<noteq> [] then sections @ [trim cur] else sections)
            = map (sliceTrim t) (if trim cur \<noteq> [] then bounds @ [(int c0, int li)] else bounds)"
        using inv(1,3) by (simp add: sliceTrim_def)
      show ?thesis
        unfolding step secInv_def prod.case
        apply (rule exI [of _ "if trim cur \<noteq> [] then bounds @ [(int c0, int li)] else bounds"])
        apply (rule exI [of _ li])
        using ok' secs h0 h1 by simp
    qed
  qed
qed

lemma headers_inv: "secInv t st \<Longrightarrow> secInv t (foldl (headerStep t) st hs)"
  by (induction hs arbitrary: st) (simp_all add: headerStep_inv)

lemma js_slice_join:
  assumes "a \<le> b" "b \<le> c"
  shows "js_slice t (int a) (int b) @ js_slice t (int b) (int c) = js_slice t (int a) (int c)"
proof -
  have "take (b - a) (drop a t) @ take (c - b) (drop b t) = take (c - a) (drop a t)"
  proof -
    have "c - a = (b - a) + (c - b)" using assms by simp
    moreover have "drop (b - a) (drop a t) = drop b t" using assms by simp
    ultimately show ?thesis by (simp add: take_add)
  qed
  then show ?thesis by (simp add: js_slice_nonneg)
qed

lemma js_slice_whole: "js_slice t 0 (int (length t)) = t"
  by (simp add: js_slice_nonneg)

lemma sections_repr:
  assumes "trim t = t" "nl \<notin> set t"
  shows "\<exists>bounds. splitIntoSections t = map (sliceTrim t) bounds
            \<and> okBounds t 0 bounds (int (length t)) \<and> (t \<noteq> [] \<longrightarrow> bounds \<noteq> [])"
proof -
  have "secInv t ([], [], 0)"
    unfolding secInv_def prod.case
    by (intro exI [of _ "[]"] exI [of _ 0]) (simp add: okBounds_def flat_def js_slice_nonneg)
  then have "secInv t (foldl (headerStep t) ([], [], 0) sectionHeaders)" by (rule headers_inv)
  then obtain sections cur li bounds c0 where
    f: "foldl (headerStep t) ([], [], 0) sectionHeaders = (sections, cur, li)"
    and inv: "sections = map (sliceTrim t) bounds"
    "okBounds t 0 bounds (int c0)" "cur = js_slice t (int c0) (int li)"
    "c0 \<le> li" "li \<le> length t" "t \<noteq> [] \<longrightarrow> li < length t"
    unfolding secInv_def by (cases "foldl (headerStep t) ([], [], 0) sectionHeaders") auto
  define cur' where "cur' = (if li < length t then cur @ js_slice t (int li) (int (length t)) else cur)"
  have cur': "cur' = js_slice t (int c0) (int (length t))"
  proof (cases "li < length t")
    case True
    then show ?thesis
      using js_slice_join [OF inv(4), of "length t" t] inv(3) by (simp add: cur'_def)
  next
    case False
    with inv(5,6) have "t = []" "li = length t" by auto
    then show ?thesis using inv(3) by (simp add: cur'_def)
  qed
  define bounds' where
    "bounds' = (if trim cur' \<noteq> [] then bounds @ [(int c0, int (length t))] else bounds)"
  define sections' where
    "sections' = (if trim cur' \<noteq> [] then sections @ [trim cur'] else sections)"
  have c0l: "int c0 \<le> int (length t)" using inv(4,5) by simp
  have ok': "okBounds t 0 bounds' (int (length t))"
    using okBounds_snoc [OF inv(2) c0l] okBounds_extend [OF inv(2) c0l] cur'
    by (auto simp: bounds'_def)
  have secs': "sections' = map (sliceTrim t) bounds'"
    using inv(1) cur' by (simp add: sections'_def bounds'_def sliceTrim_def)
  have ne: "bounds' \<noteq> []" "trim t \<noteq> []" if "t \<noteq> []"
  proof -
    from that inv(6) have li: "li < length t" by simp
    have "\<not> isSpace (last t)" using trimmed_ends(2) [OF assms(1) that] .
    then show "trim t \<noteq> []" using that by (auto simp: trim_nonempty_iff intro: last_in_set)
    have "t ! (length t - 1) \<in> set (js_slice t (int c0) (int (length t)))"
      using li inv(4) by (intro nth_in_slice) auto
    then have "last t \<in> set cur'" using that by (simp add: cur' last_conv_nth)
    with \<open>\<not> isSpace (last t)\<close> have "trim cur' \<noteq> []" by (auto simp: trim_nonempty_iff)
    then show "bounds' \<noteq> []" by (simp add: bounds'_def)
  qed
  have res: "splitIntoSections t =
      (if length sections' = 1
       then filter (\<lambda>section. length (trim section) > 0) (js_split False rx_blank_lines t)
       else sections')"
    by (simp add: splitIntoSections_def f Let_def cur'_def sections'_def)
  show ?thesis
  proof (cases "length sections' = 1")
    case False
    with res secs' ok' ne show ?thesis by auto
  next
    case True
    have "t \<noteq> []"
    proof
      assume e: "t = []"
      from True secs' obtain w where "w \<in> set bounds'" by (cases bounds') auto
      with ok' have "trim (js_slice t (fst w) (snd w)) \<noteq> []" by (auto simp: okBounds_def)
      then show False by (simp add: e js_slice_def trim_def)
    qed
    then have tne: "trim t \<noteq> []" by (rule ne(2))
    have "splitIntoSections t = [t]"
      using True tne by (simp add: res split_blank_lines [OF assms(2)])
    also have "\<dots> = map (sliceTrim t) [(0, int (length t))]"
      by (simp add: sliceTrim_def js_slice_whole assms(1))
    finally have r: "splitIntoSections t = map (sliceTrim t) [(0, int (length t))]" .
    have "okBounds t 0 [(0, int (length t))] (int (length t))"
      using tne by (simp add: okBounds_def flat_def js_slice_whole assms(1))
    with r show ?thesis by blast
  qed
qed

lemma section_chunks:
  assumes "paramsOk cs ov" "0 \<le> l" "l \<le> r" "sliceTrim t (l, r) \<noteq> []"
  shows "\<exists>first. (if int (length (sliceTrim t (l, r))) \<le> cs then Some [trim (sliceTrim t (l, r))]
                   else splitSectionIntoChunks (sliceTrim t (l, r)) cs ov) = Some first
            \<and> (\<forall>c\<in>set first. trim c \<noteq> []) \<and> first \<noteq> []
            \<and> placed (squash t) (sqoff t (nat l)) (sqoff t (nat r)) first"
proof -
  define S where "S = sliceTrim t (l, r)"
  have r0: "0 \<le> r" using assms(2,3) by simp
  have tS: "trim S = S" by (simp add: S_def sliceTrim_def trim_trim)
  have inf: "infix_at (squash t) (sqoff t (nat l)) (squash S)"
    unfolding S_def sliceTrim_def fst_conv snd_conv by (rule infix_at_slice [OF assms(2) r0])
  have sq: "squash S = squash (take (nat r - nat l) (drop (nat l) t))"
    by (simp add: S_def sliceTrim_def squash_trim js_slice_nonneg [OF assms(2) r0])
  have "sqoff t (nat l) + length (squash S) = sqoff t (nat l + (nat r - nat l))"
    unfolding sq by (rule sqoff_segment)
  also have "nat l + (nat r - nat l) = nat r" using assms(2,3) by simp
  finally have hi: "sqoff t (nat l) + length (squash S) = sqoff t (nat r)" .
  have lr: "sqoff t (nat l) \<le> sqoff t (nat r)" using assms(3) by (intro sqoff_mono nat_mono)
  show ?thesis
  proof (cases "int (length S) \<le> cs")
    case True
    have "placed (squash t) (sqoff t (nat l)) (sqoff t (nat r)) [trim S]"
      using inf lr by (intro placed_single) (simp_all add: tS)
    then show ?thesis using True assms(4) tS by (simp add: S_def [symmetric])
  next
    case False
    from splitSection_total [OF assms(1), of S]
    obtain new where n: "splitSectionIntoChunks S cs ov = Some new" "\<forall>c\<in>set new. trim c \<noteq> []"
      "placed (squash S) 0 (length (squash S)) new" "squash S \<noteq> [] \<longrightarrow> new \<noteq> []" by blast
    have "squash S \<noteq> []" using assms(4) tS by (simp add: S_def [symmetric] trim_blank_iff [symmetric])
    with n(4) have "new \<noteq> []" by simp
    moreover have "placed (squash t) (sqoff t (nat l)) (sqoff t (nat r)) new"
      using placed_inner [OF inf n(3)] hi by simp
    ultimately show ?thesis using False n(1,2) by (simp add: S_def [symmetric])
  qed
qed

lemma okBounds_Cons:
  assumes "okBounds t lo ((l, r) # rest) hi"
  shows "lo \<le> l" "l \<le> r" "okBounds t r rest hi" "sliceTrim t (l, r) \<noteq> []" "r \<le> hi"
  using assms by (auto simp: okBounds_def flat_def sliceTrim_def)

lemma sectionsLoop_total:
  assumes "paramsOk cs ov"
  shows "okBounds t lo bounds (int (length t)) \<Longrightarrow> 0 \<le> lo \<Longrightarrow>
         \<exists>new. sectionsLoop cs ov (map (sliceTrim t) bounds) chunks = Some (chunks @ new)
            \<and> (\<forall>c\<in>set new. trim c \<noteq> [])
            \<and> placed (squash t) (sqoff t (nat lo)) (length (squash t)) new
            \<and> (bounds \<noteq> [] \<longrightarrow> new \<noteq> [])"
proof (induction bounds arbitrary: lo chunks)
  case Nil
  show ?case by (simp add: placed_Nil)
next
  case (Cons w rest)
  obtain l r where w: "w = (l, r)" by (cases w) auto
  note b = okBounds_Cons [OF Cons.prems(1) [unfolded w]]
  have l0: "0 \<le> l" using b(1) Cons.prems(2) by simp
  have r0: "0 \<le> r" using l0 b(2) by simp
  from section_chunks [OF assms l0 b(2) b(4)]
  obtain first where f: "(if int (length (sliceTrim t (l, r))) \<le> cs
                          then Some [trim (sliceTrim t (l, r))]
                          else splitSectionIntoChunks (sliceTrim t (l, r)) cs ov) = Some first"
    "\<forall>c\<in>set first. trim c \<noteq> []" "first \<noteq> []"
    "placed (squash t) (sqoff t (nat l)) (sqoff t (nat r)) first" by blast
  from Cons.IH [OF b(3) r0, of "chunks @ first"]
  obtain new where n: "sectionsLoop cs ov (map (sliceTrim t) rest) (chunks @ first)
        = Some ((chunks @ first) @ new)" "\<forall>c\<in>set new. trim c \<noteq> []"
    "placed (squash t) (sqoff t (nat r)) (length (squash t)) new" by blast
  have step: "sectionsLoop cs ov (map (sliceTrim t) (w # rest)) chunks
        = sectionsLoop cs ov (map (sliceTrim t) rest) (chunks @ first)"
    using f(1) by (auto simp: w split: if_splits)
  have "placed (squash t) (sqoff t (nat l)) (length (squash t)) (first @ new)"
    using f(4) n(3) by (rule placed_append) (auto intro!: sqoff_mono nat_mono b(2) sqoff_le)
  then have "placed (squash t) (sqoff t (nat lo)) (length (squash t)) (first @ new)"
    by (rule placed_widen) (auto intro!: sqoff_mono nat_mono b(1))
  then show ?case
    using step n(1,2) f(2,3) by (intro exI [of _ "first @ new"]) auto
qed

lemma generic_path:
  assumes "paramsOk cs ov" "trim t = t" "nl \<notin> set t"
  shows "\<exists>chunks. map_option (filter (\<lambda>c. length (trim c) > 0))
                    (sectionsLoop cs ov (splitIntoSections t) []) = Some chunks
            \<and> (\<forall>c\<in>set chunks. trim c \<noteq> [])
            \<and> placed (squash t) 0 (length (squash t)) chunks
            \<and> (t \<noteq> [] \<longrightarrow> chunks \<noteq> [])"
proof -
  from sections_repr [OF assms(2,3)]
  obtain bounds where b: "splitIntoSections t = map (sliceTrim t) bounds"
    "okBounds t 0 bounds (int (length t))" "t \<noteq> [] \<longrightarrow> bounds \<noteq> []" by blast
  from sectionsLoop_total [OF assms(1) b(2), of "[]"]
  obtain new where n: "sectionsLoop cs ov (map (sliceTrim t) bounds) [] = Some new"
    "\<forall>c\<in>set new. trim c \<noteq> []" "placed (squash t) (sqoff t (nat 0)) (length (squash t)) new"
    "bounds \<noteq> [] \<longrightarrow> new \<noteq> []" by auto
  have "filter (\<lambda>c. length (trim c) > 0) new = new" using n(2) by (simp add: filter_id_conv)
  moreover have "placed (squash t) 0 (length (squash t)) new"
    using n(3) by (simp add: sqoff_def squash_def)
  ultimately show ?thesis using b n by auto
qed

subsection \<open>The educational path\<close>

lemma rxm_results:
  "(p', s', cs') \<in> set (rxm i r (p, s, cs)) \<Longrightarrow>
     length s' \<le> length s \<and> (ngroups r = 0 \<longrightarrow> cs' = cs)"
proof (induction r arbitrary: p s cs p' s' cs')
  case (Atom a)
  then show ?case by (auto split: list.splits if_splits)
next
  case (Seq a b)
  from Seq.prems obtain st1 where st1: "st1 \<in> set (rxm i a (p, s, cs))"
    "(p', s', cs') \<in> set (rxm i b st1)" by auto
  obtain p1 s1 cs1 where e: "st1 = (p1, s1, cs1)" by (cases st1) auto
  from Seq.IH(1) [OF st1(1) [unfolded e]] Seq.IH(2) [OF st1(2) [unfolded e]]
  show ?case by auto
next
  case (Alt a b)
  from Alt.prems have "(p', s', cs') \<in> set (rxm i a (p, s, cs)) \<or> (p', s', cs') \<in> set (rxm i b (p, s, cs))"
    by simp
  with Alt.IH show ?case by auto
next
  case (Rep a lo hi g)
  then show ?case by (auto simp: Let_def)
next
  case (Grp k r)
  from Grp.prems obtain cs1 where "(p', s', cs1) \<in> set (rxm i r (p, s, cs))" by auto
  from Grp.IH [OF this] show ?case by simp
next
  case WordB
  then show ?case by (auto split: if_splits)
next
  case Eps
  then show ?case by simp
qed

definition capturePrefix :: "bool \<Rightarrow> rx \<Rightarrow> bool" where
  "capturePrefix i r =
     (\<forall>p s p' s' cs'. (p', s', cs') \<in> set (rxm i r (p, s, [])) \<longrightarrow>
        (\<exists>k. k \<le> length s - length s' \<and> capture cs' 1 = take k s))"

lemma capturePrefix_grp: "capturePrefix i (Grp 1 a)"
  unfolding capturePrefix_def
proof (intro allI impI)
  fix p s p' s' cs' assume "(p', s', cs') \<in> set (rxm i (Grp 1 a) (p, s, []))"
  then obtain cs1 where "cs' = (1, take (length s - length s') s) # cs1" by auto
  then show "\<exists>k. k \<le> length s - length s' \<and> capture cs' 1 = take k s"
    by (intro exI [of _ "length s - length s'"]) (simp add: capture_def)
qed

lemma capturePrefix_seq:
  assumes "ngroups g = 0"
  shows "capturePrefix i (Seq (Grp 1 a) g)"
  unfolding capturePrefix_def
proof (intro allI impI)
  fix p s p' s' cs' assume "(p', s', cs') \<in> set (rxm i (Seq (Grp 1 a) g) (p, s, []))"
  then obtain st1 where st1: "st1 \<in> set (rxm i (Grp 1 a) (p, s, []))"
    "(p', s', cs') \<in> set (rxm i g st1)"
    unfolding rxm.simps(2) set_concat set_map by blast
  obtain p1 s1 c1 where e: "st1 = (p1, s1, c1)" by (cases st1) auto
  from st1(1) obtain cs1 where c1: "c1 = (1, take (length s - length s1) s) # cs1"
    unfolding e by auto
  from rxm_results [OF st1(2) [unfolded e]] assms
  have r: "length s' \<le> length s1" "cs' = c1" by auto
  show "\<exists>k. k \<le> length s - length s' \<and> capture cs' 1 = take k s"
    using r(1) by (intro exI [of _ "length s - length s1"]) (simp add: r(2) c1 capture_def)
qed

inductive split_layout :: "string \<Rightarrow> string list \<Rightarrow> bool" where
  last: "split_layout s [s]"
| step: "split_layout rest L \<Longrightarrow> split_layout (p @ c @ sep @ rest) (p # c # L)"

lemma split_go_layout:
  assumes "capturePrefix i r" "ngroups r = 1"
  shows "split_layout (rev acc @ drop skip s) (split_go i r p s acc skip)"
proof (induction s arbitrary: p acc skip)
  case Nil
  show ?case by (simp add: split_layout.last)
next
  case (Cons c s)
  show ?case
  proof (cases "skip > 0")
    case True
    then obtain k where k: "skip = Suc k" by (cases skip) auto
    from Cons.IH [of acc k "Some c"] show ?thesis by (simp add: k)
  next
    case False
    then have z: "skip = 0" by simp
    show ?thesis
    proof (cases "rxm i r (p, c # s, [])")
      case Nil
      from Cons.IH [of "c # acc" 0 "Some c"] show ?thesis by (simp add: z Nil)
    next
      case (Cons st' sts)
      obtain p' s' cs where st': "st' = (p', s', cs)" by (cases st') auto
      define len where "len = length (c # s) - length s'"
      have "(p', s', cs) \<in> set (rxm i r (p, c # s, []))" by (simp add: Cons st')
      with assms(1) obtain k where k: "k \<le> len" "capture cs 1 = take k (c # s)"
        unfolding capturePrefix_def len_def by blast
      show ?thesis
      proof (cases "len = 0 \<and> acc = []")
        case True
        from Cons.IH [of "c # acc" 0 "Some c"] True show ?thesis
          by (simp add: z Cons st' len_def Let_def)
      next
        case False
        define tail where "tail = (if len = 0 then split_go i r (Some c) s [c] 0
                                   else split_go i r (Some c) s [] (len - 1))"
        have "split_go i r p (c # s) acc 0 =
            (let len = length (c # s) - length s'
             in if len = 0 \<and> acc = [] then split_go i r (Some c) s (c # acc) 0
                else rev acc # map (capture cs) [1..<Suc (ngroups r)] @
                     (if len = 0 then split_go i r (Some c) s [c] 0
                      else split_go i r (Some c) s [] (len - 1)))"
          by (simp only: split_go.simps Cons st' list.case prod.case less_nat_zero_code if_False)
        then have out: "split_go i r p (c # s) acc skip = rev acc # capture cs 1 # tail"
          unfolding Let_def len_def [symmetric] tail_def [symmetric] z
          using False assms(2) by simp
        have lay: "split_layout (drop len (c # s)) tail"
        proof (cases "len = 0")
          case True
          from Cons.IH [of "[c]" 0 "Some c"] True show ?thesis by (simp add: tail_def)
        next
          case False
          then obtain m where m: "len = Suc m" by (cases len) auto
          from Cons.IH [of "[]" m "Some c"] show ?thesis by (simp add: tail_def m)
        qed
        have "c # s = take k (c # s) @ take (len - k) (drop k (c # s)) @ drop len (c # s)"
        proof -
          have "take len (c # s) = take k (c # s) @ take (len - k) (drop k (c # s))"
            using k(1) by (metis le_add_diff_inverse take_add)
          then show ?thesis by (metis append_assoc append_take_drop_id)
        qed
        then have "rev acc @ drop skip (c # s)
            = rev acc @ capture cs 1 @ take (len - k) (drop k (c # s)) @ drop len (c # s)"
          unfolding z k(2) drop_0 by (rule arg_cong [where f = "(@) (rev acc)"])
        then show ?thesis
          unfolding out by (simp only: split_layout.step [OF lay])
      qed
    qed
  qed
qed

lemma js_split_layout:
  assumes "capturePrefix i r" "ngroups r = 1" "s \<noteq> []"
  shows "split_layout s (js_split i r s)"
  using split_go_layout [OF assms(1,2), of "[]" 0 s None] assms(3) by (simp add: js_split_def)

lemma nl_space: "isSpace nl"
  by (simp add: isSpace_def nl_def charCode_def)

lemma pair_chunks:
  assumes "paramsOk cs ov"
  shows "\<exists>first. (if trim p \<noteq> [] \<and> trim c \<noteq> []
                   then (if int (length (trim p @ [nl] @ trim c)) \<le> cs
                         then Some [trim p @ [nl] @ trim c]
                         else splitSectionIntoChunks (trim p @ [nl] @ trim c) cs ov)
                   else Some []) = Some first
            \<and> (\<forall>x\<in>set first. trim x \<noteq> [])
            \<and> placed (squash (p @ c @ rest)) 0 (length (squash (p @ c))) first"
proof (cases "trim p \<noteq> [] \<and> trim c \<noteq> []")
  case False
  then show ?thesis by (auto simp: placed_Nil)
next
  case True
  define qa where "qa = trim p @ [nl] @ trim c"
  have sq: "squash qa = squash (p @ c)"
    by (simp add: qa_def squash_append squash_trim squash_simps nl_space)
  have inf: "infix_at (squash (p @ c @ rest)) 0 (squash qa)"
    using infix_at_append [of "[]" "squash (p @ c)" "squash rest"]
    by (simp add: sq squash_append)
  have ne: "squash qa \<noteq> []" using True by (simp add: sq squash_append trim_blank_iff)
  show ?thesis
  proof (cases "int (length qa) \<le> cs")
    case short: True
    have "placed (squash (p @ c @ rest)) 0 (length (squash (p @ c))) [qa]"
      by (rule placed_single [where off = 0]) (simp_all add: inf)
    moreover have "trim qa \<noteq> []" using ne by (simp add: trim_blank_iff)
    ultimately show ?thesis using True short unfolding qa_def by simp
  next
    case long: False
    from splitSection_total [OF assms, of qa]
    obtain new where n: "splitSectionIntoChunks qa cs ov = Some new" "\<forall>c\<in>set new. trim c \<noteq> []"
      "placed (squash qa) 0 (length (squash qa)) new" by blast
    have "placed (squash (p @ c @ rest)) 0 (length (squash (p @ c))) new"
      using placed_inner [OF inf n(3)] by (simp add: sq)
    then show ?thesis using True long n(1,2) unfolding qa_def by simp
  qed
qed

lemma qaLoop_layout:
  assumes "paramsOk cs ov"
  shows "split_layout s L \<Longrightarrow>
         \<exists>new. qaLoop cs ov L chunks = Some (chunks @ new)
            \<and> (\<forall>x\<in>set new. trim x \<noteq> [])
            \<and> placed (squash s) 0 (length (squash s)) new"
proof (induction s L arbitrary: chunks rule: split_layout.induct)
  case (last s)
  show ?case by (simp add: placed_Nil)
next
  case (step rest L p c sep)
  from pair_chunks [OF assms, of p c "sep @ rest"]
  obtain first where f: "(if trim p \<noteq> [] \<and> trim c \<noteq> []
                   then (if int (length (trim p @ [nl] @ trim c)) \<le> cs
                         then Some [trim p @ [nl] @ trim c]
                         else splitSectionIntoChunks (trim p @ [nl] @ trim c) cs ov)
                   else Some []) = Some first"
    "\<forall>x\<in>set first. trim x \<noteq> []"
    "placed (squash (p @ c @ sep @ rest)) 0 (length (squash (p @ c))) first" by blast
  from step.IH [of "chunks @ first"]
  obtain new where n: "qaLoop cs ov L (chunks @ first) = Some ((chunks @ first) @ new)"
    "\<forall>x\<in>set new. trim x \<noteq> []" "placed (squash rest) 0 (length (squash rest)) new" by blast
  have unf: "qaLoop cs ov (p # c # L) chunks = qaLoop cs ov L (chunks @ first)"
    using f(1) by (auto simp: Let_def split: if_splits)
  define d where "d = squash (p @ c @ sep @ rest)"
  define off0 where "off0 = length (squash (p @ c @ sep))"
  have "infix_at d off0 (squash rest)"
    using infix_at_append [of "squash (p @ c @ sep)" "squash rest" "[]"]
    by (simp add: d_def off0_def squash_append)
  from placed_inner [OF this n(3)]
  have "placed d (off0 + 0) (off0 + length (squash rest)) new" .
  moreover have "off0 + length (squash rest) = length d"
    by (simp add: d_def off0_def squash_append)
  ultimately have p2: "placed d off0 (length d) new" by simp
  have "placed d 0 off0 first"
    using f(3) unfolding d_def [symmetric]
    by (rule placed_widen) (simp_all add: off0_def squash_append)
  then have "placed d 0 (length d) (first @ new)"
    using p2 by (rule placed_append) (simp_all add: off0_def d_def squash_append)
  then show ?case
    using unf n(1,2) f(2) unfolding d_def by (intro exI [of _ "first @ new"]) auto
qed

lemma question_patterns:
  "capturePrefix i rx_question_marker" "ngroups rx_question_marker = 1"
  "capturePrefix i rx_question_inline" "ngroups rx_question_inline = 1"
proof -
  show "capturePrefix i rx_question_marker"
    unfolding rx_question_marker_def by (rule capturePrefix_grp)
  have lit0: "ngroups (lit w) = 0" for w by (induction w) (simp_all add: lit_def)
  have alts0: "ngroups (alts rs) = sum_list (map ngroups rs)" for rs
    by (induction rs rule: alts.induct) simp_all
  show "ngroups rx_question_marker = 1"
    by (simp add: rx_question_marker_def rxs_def lit0 plus_def star_def alts0)
  show "capturePrefix i rx_question_inline"
    unfolding rx_question_inline_def rxs_def foldr.simps comp_def
    by (rule capturePrefix_seq) (simp add: lit0 plus_def)
  show "ngroups rx_question_inline = 1"
    by (simp add: rx_question_inline_def rxs_def lit0 plus_def alts0 comp_def)
qed

lemma educational_path:
  assumes "paramsOk cs ov" "t \<noteq> []" "trim t = t"
  shows "\<exists>chunks. splitEducationalContent t cs ov = Some chunks
            \<and> (\<forall>c\<in>set chunks. trim c \<noteq> [])
            \<and> placed (squash t) 0 (length (squash t)) chunks \<and> chunks \<noteq> []"
proof -
  note lay1 = js_split_layout [OF question_patterns(1,2) assms(2), of True]
  note lay2 = js_split_layout [OF question_patterns(3,4) assms(2), of True]
  from qaLoop_layout [OF assms(1) lay1, of "[]"]
  obtain c1 where c1: "qaLoop cs ov (js_split True rx_question_marker t) [] = Some c1"
    "\<forall>x\<in>set c1. trim x \<noteq> []" "placed (squash t) 0 (length (squash t)) c1" by auto
  from qaLoop_layout [OF assms(1) lay2, of "[]"]
  obtain c2 where c2: "qaLoop cs ov (js_split True rx_question_inline t) [] = Some c2"
    "\<forall>x\<in>set c2. trim x \<noteq> []" "placed (squash t) 0 (length (squash t)) c2" by auto
  from splitSection_total [OF assms(1), of t]
  obtain c3 where c3: "splitSectionIntoChunks t cs ov = Some c3" "\<forall>x\<in>set c3. trim x \<noteq> []"
    "placed (squash t) 0 (length (squash t)) c3" "squash t \<noteq> [] \<longrightarrow> c3 \<noteq> []" by blast
  have "trim t \<noteq> []" using assms(2,3) by simp
  then have c3ne: "c3 \<noteq> []" using c3(4) by (simp add: trim_blank_iff)
  have keep: "filter (\<lambda>c. length (trim c) > 0) xs = xs" if "\<forall>x\<in>set xs. trim x \<noteq> []" for xs
    using that by (simp add: filter_id_conv)
  show ?thesis
  proof (cases "c1 = []")
    case False
    then show ?thesis
      using c1 keep [OF c1(2)] by (simp add: splitEducationalContent_def)
  next
    case e1: True
    show ?thesis
    proof (cases "c2 = []")
      case False
      then show ?thesis
        using c1(1) e1 c2 keep [OF c2(2)] by (simp add: splitEducationalContent_def)
    next
      case True
      then show ?thesis
        using c1(1) e1 c2(1) c3 c3ne by (simp add: splitEducationalContent_def)
    qed
  qed
qed

lemma paramsOk_default: "paramsOk 1000 200"
  by (simp add: paramsOk_def)

lemma educational_nonempty: "isEducationalDocument t \<Longrightarrow> t \<noteq> []"
  by (auto simp: isEducationalDocument_def educationalKeywords_def)

subsection \<open>The chunks of a text\<close>

text \<open>
  C7, as amended. With the default chunk size and overlap (1000 and 200),
  \<open>splitTextIntoChunks\<close> returns for every source text; every chunk is non-empty after
  trimming; the chunks occur in the source in left-to-right order; and the sequence is
  non-empty exactly when the text has a character that is not white space: a blank text
  has no chunk.
\<close>

theorem chunks_of_text:
  "\<exists>chunks. splitTextIntoChunks t 1000 200 = Some chunks
      \<and> (\<forall>c\<in>set chunks. trim c \<noteq> [])
      \<and> (chunks \<noteq> []) = (\<exists>c\<in>set t. \<not> isSpace c)
      \<and> leftToRight t chunks"
proof -
  define T where "T = cleanText t"
  note cl = cleanText_props [of t, folded T_def]
  have blank: "(T \<noteq> []) = (\<exists>c\<in>set t. \<not> isSpace c)"
  proof -
    have "(T \<noteq> []) = (trim T \<noteq> [])" by (simp add: cl(3))
    also have "\<dots> = (squash t \<noteq> [])" by (simp add: trim_blank_iff cl(1))
    finally show ?thesis by (simp add: squash_nonempty_iff)
  qed
  have "\<exists>chunks. splitTextIntoChunks t 1000 200 = Some chunks
      \<and> (\<forall>c\<in>set chunks. trim c \<noteq> [])
      \<and> placed (squash T) 0 (length (squash T)) chunks
      \<and> (chunks \<noteq> []) = (T \<noteq> [])"
  proof (cases "isEducationalDocument T")
    case True
    then have "T \<noteq> []" by (rule educational_nonempty)
    from educational_path [OF paramsOk_default this cl(3)] True \<open>T \<noteq> []\<close>
    show ?thesis by (auto simp: splitTextIntoChunks_def T_def [symmetric])
  next
    case False
    from generic_path [OF paramsOk_default cl(3) cl(2)]
    obtain chunks where g: "map_option (filter (\<lambda>c. length (trim c) > 0))
                    (sectionsLoop 1000 200 (splitIntoSections T) []) = Some chunks"
      "\<forall>c\<in>set chunks. trim c \<noteq> []" "placed (squash T) 0 (length (squash T)) chunks"
      "T \<noteq> [] \<longrightarrow> chunks \<noteq> []" by blast
    have "chunks = []" if "T = []"
    proof -
      from g(2) have "\<forall>c\<in>set chunks. squash c \<noteq> []" by (simp add: trim_blank_iff)
      moreover from g(3) obtain offs where "list_all2 (\<lambda>off c. infix_at (squash T) off (squash c)) offs chunks"
        unfolding placed_def by blast
      then have "\<forall>c\<in>set chunks. squash c = []"
        unfolding that by (auto simp: list_all2_conv_all_nth in_set_conv_nth infix_at_def squash_simps)
      ultimately show ?thesis by (cases chunks) auto
    qed
    with g False show ?thesis
      by (auto simp: splitTextIntoChunks_def T_def [symmetric])
  qed
  then show ?thesis
    unfolding blank cl(1) by (auto dest: placed_leftToRight)
qed

theorem chunks_of_text_witness:
  "splitTextIntoChunks ''A  b. Skills: c. About d'' 1000 200
     = Some [''A b.'', ''Skills: c. About d'']
   \<and> trim ''A b.'' \<noteq> [] \<and> trim ''Skills: c. About d'' \<noteq> []
   \<and> leftToRight ''A  b. Skills: c. About d''
         [''A b.'', ''Skills: c. About d'']
   \<and> splitTextIntoChunks ''  '' 1000 200 = Some []"
proof -
  have e: "splitTextIntoChunks ''A  b. Skills: c. About d'' 1000 200
             = Some [''A b.'', ''Skills: c. About d'']"
    by code_simp
  have b: "\<not> (\<exists>c\<in>set ''  ''. \<not> isSpace c)"
    by (simp add: space_is_space)
  from chunks_of_text [of "''A  b. Skills: c. About d''"] e
  have "(\<forall>c\<in>set [''A b.'', ''Skills: c. About d'']. trim c \<noteq> [])
        \<and> leftToRight ''A  b. Skills: c. About d''
             [''A b.'', ''Skills: c. About d'']"
    by auto
  moreover from chunks_of_text [of "''  ''"] b
  have "splitTextIntoChunks ''  '' 1000 200 = Some []" by auto
  ultimately show ?thesis using e by simp
qed

text \<open>C7 as stated fails at the empty text: the sequence of its chunks is empty.\<close>

theorem chunks_of_blank_text_counterexample:
  "splitTextIntoChunks [] 1000 200 = Some []"
  by code_simp

end
